theory Spec2Isabelle
  imports Complex_Main
begin

section \<open>Broad-crested weir discharge (BroadcrestedWeir.ipynb)\<close>

text \<open>
  The code cell of the notebook:
  \<^verbatim>\<open>
  g = 9.81  # gravitational acceleration (m/s^2)

  def broad_crested_weir_Q(b, H, Cd):
      return Cd * b * H * np.sqrt(2 * g * H)

  def plot_broad_weir(Cd, b, H_max):
      H_vals = np.linspace(0.01, H_max, 300)
      Q_vals = broad_crested_weir_Q(b, H_vals, Cd)
      plt.figure(...); plt.plot(H_vals, Q_vals, ...); ...; plt.show()
  \<close>

  Numbers. The program is modelled twice. In the first model a Python float is a
  \<^typ>\<open>real\<close>: arithmetic is exact, the rounding of IEEE double precision is not part
  of the model, and neither are overflow, infinities or NaN inputs. The one way the
  formula itself can leave the numbers is kept: \<^verbatim>\<open>np.sqrt\<close> of a negative argument
  is NaN (NumPy warns and returns \<^verbatim>\<open>nan\<close>, it does not raise), and NaN absorbs every
  product it enters. A result is therefore a \<^typ>\<open>real option\<close>, with \<^term>\<open>None\<close> for
  NaN. This model settles what is a property of the formulas. The second model, further
  down, computes in double precision; it settles what is asserted of the computed
  values themselves: strictness, exactness and the absence of NaN.
\<close>

subsection \<open>The constant and the discharge equation\<close>

definition g :: real where
  "g = 981 / 100"

text \<open>
  \<^verbatim>\<open>np.sqrt\<close> on a scalar. HOL's \<^term>\<open>sqrt\<close> is the odd extension of the square
  root (\<open>sqrt (- x) = - sqrt x\<close>), which is not what NumPy computes below zero, so
  the negative branch is written out.
\<close>

definition np_sqrt :: "real \<Rightarrow> real option" where
  "np_sqrt x = (if x < 0 then None else Some (sqrt x))"

text \<open>
  \<^verbatim>\<open>broad_crested_weir_Q(b, H, Cd)\<close>, with the source's parameter order. The product
  \<^verbatim>\<open>Cd * b * H * np.sqrt(2 * g * H)\<close> associates to the left; its last factor may
  be NaN, and then so is the product.
\<close>

definition broad_crested_weir_Q :: "real \<Rightarrow> real \<Rightarrow> real \<Rightarrow> real option" where
  "broad_crested_weir_Q b H Cd = map_option (\<lambda>r. Cd * b * H * r) (np_sqrt (2 * g * H))"

subsection \<open>Sampling and the curve\<close>

text \<open>
  \<^verbatim>\<open>np.linspace(start, stop, num)\<close> with its defaults (\<^verbatim>\<open>endpoint=True\<close>) is NumPy
  library code, not code of this notebook. It is modelled after NumPy's own
  definition (\<^verbatim>\<open>numpy/_core/function_base.py\<close>), for \<^verbatim>\<open>num >= 0\<close>:
  \<^verbatim>\<open>
  div = num - 1
  delta = stop - start
  y = arange(0, num)
  if div > 0:
      step = delta / div
      y = y * step          # (y / div) * delta when step == 0
  else:
      y = y * delta
  y += start
  if num > 1:
      y[-1] = stop
  \<close>
  \<open>div\<close> is an infix operator of HOL, so the model calls it \<open>divisor\<close>. It is
  used only where it is positive, so the truncated subtraction of \<^typ>\<open>nat\<close> at
  \<open>num = 0\<close> (0 where Python has -1) takes the same branch.
\<close>

definition linspace :: "real \<Rightarrow> real \<Rightarrow> nat \<Rightarrow> real list" where
  "linspace start stop num =
     (let divisor = num - 1;
          delta = stop - start;
          y = map real [0..<num];
          y = (if 0 < divisor
               then (let step = delta / real divisor
                     in if step = 0 then map (\<lambda>v. v / real divisor * delta) y
                        else map (\<lambda>v. v * step) y)
               else map (\<lambda>v. v * delta) y);
          y = map (\<lambda>v. v + start) y
      in if 1 < num then y[num - 1 := stop] else y)"

text \<open>
  \<^verbatim>\<open>plot_broad_weir(Cd, b, H_max)\<close> computes two arrays and hands them to the
  plotting library; the model returns the pair \<open>(H_vals, Q_vals)\<close> it plots. The
  call \<^verbatim>\<open>broad_crested_weir_Q(b, H_vals, Cd)\<close> on an array is NumPy broadcasting:
  the scalar formula at every element.
\<close>

definition plot_broad_weir :: "real \<Rightarrow> real \<Rightarrow> real \<Rightarrow> real list \<times> real option list" where
  "plot_broad_weir Cd b H_max =
     (let H_vals = linspace (1 / 100) H_max 300;
          Q_vals = map (\<lambda>H. broad_crested_weir_Q b H Cd) H_vals
      in (H_vals, Q_vals))"

text \<open>
  The power-law form of the discharge as the specification words it
  (\<open>Cd \<sqdot> b \<sqdot> sqrt(2\<sqdot>9.81) \<sqdot> H^1.5\<close>), to be compared with the implemented expression.
\<close>

definition power_law_Q :: "real \<Rightarrow> real \<Rightarrow> real \<Rightarrow> real" where
  "power_law_Q Cd b H = Cd * b * sqrt (2 * (981 / 100)) * H powr (3 / 2)"

section \<open>The same program in double precision\<close>

text \<open>
  The notebook computes in IEEE 754 binary64. The second model keeps what the first one
  leaves out: every operation rounds its exact result to the nearest double, ties to the
  even one; a result beyond the largest double becomes an infinity; and NaN comes from
  \<open>0 * inf\<close>, \<open>inf - inf\<close>, \<open>0 / 0\<close>, \<open>inf / inf\<close> and the square root of a negative
  number. A double is modelled by its value: a real number, or one of \<open>+inf\<close>, \<open>-inf\<close>
  and NaN. The two zeros of IEEE 754 are one value here: they compare equal, and nothing
  in this program tells them apart (its only division is by the constant 299).
\<close>

datatype f64 = Num real | PosInf | NegInf | NaN

subsection \<open>Rounding\<close>

text \<open>
  \<open>round_half_even\<close> is rounding to the nearest integer, a tie going to the even
  neighbour. \<open>binade x\<close> is the exponent \<open>e\<close> with \<open>2^e \<le> |x| < 2^(e+1)\<close>, but not below
  - 1022, the exponent of the smallest normal double; the doubles around \<open>x\<close> are the
  multiples of \<open>ulp x = 2^(e - 52)\<close> (53 significant bits, and the fixed spacing
  \<open>2^(- 1074)\<close> of the subnormal numbers). \<open>rnd x\<close> is the multiple of \<open>ulp x\<close> nearest
  to \<open>x\<close>, and \<open>fl x\<close> is the double an operation with exact result \<open>x\<close> returns:
  \<open>rnd x\<close>, or an infinity when that lies beyond the largest double
  \<open>max_f64 = (2^53 - 1) * 2^971\<close>. A decimal literal of the source denotes
  \<open>fl\<close> of its value.
\<close>

definition round_half_even :: "real \<Rightarrow> int" where
  "round_half_even y =
     (let n = \<lfloor>y\<rfloor>; r = y - of_int n
      in if r < 1 / 2 then n else if 1 / 2 < r then n + 1
         else if even n then n else n + 1)"

definition binade :: "real \<Rightarrow> int" where
  "binade x = max \<lfloor>log 2 \<bar>x\<bar>\<rfloor> (- 1022)"

definition ulp :: "real \<Rightarrow> real" where
  "ulp x = 2 powi (binade x - 52)"

definition rnd :: "real \<Rightarrow> real" where
  "rnd x = of_int (round_half_even (x / ulp x)) * ulp x"

definition max_f64 :: real where
  "max_f64 = (2 ^ 53 - 1) * 2 ^ 971"

definition fl :: "real \<Rightarrow> f64" where
  "fl x = (let r = rnd x
           in if max_f64 < r then PosInf else if r < - max_f64 then NegInf else Num r)"


subsection \<open>Arithmetic and comparison\<close>

text \<open>
  Multiplication, addition, subtraction, division, square root, and the comparisons
  \<^verbatim>\<open><\<close> and \<^verbatim>\<open><=\<close>, which are false as soon as one side is NaN. No division by
  zero happens in this program; a zero divisor is taken as the positive zero.
\<close>

fun fmul :: "f64 \<Rightarrow> f64 \<Rightarrow> f64" where
  "fmul (Num x) (Num y) = fl (x * y)"
| "fmul NaN _ = NaN"
| "fmul _ NaN = NaN"
| "fmul (Num x) PosInf = (if x = 0 then NaN else if 0 < x then PosInf else NegInf)"
| "fmul (Num x) NegInf = (if x = 0 then NaN else if 0 < x then NegInf else PosInf)"
| "fmul PosInf (Num y) = (if y = 0 then NaN else if 0 < y then PosInf else NegInf)"
| "fmul NegInf (Num y) = (if y = 0 then NaN else if 0 < y then NegInf else PosInf)"
| "fmul PosInf PosInf = PosInf"
| "fmul PosInf NegInf = NegInf"
| "fmul NegInf PosInf = NegInf"
| "fmul NegInf NegInf = PosInf"

fun fadd :: "f64 \<Rightarrow> f64 \<Rightarrow> f64" where
  "fadd (Num x) (Num y) = fl (x + y)"
| "fadd NaN _ = NaN"
| "fadd _ NaN = NaN"
| "fadd PosInf NegInf = NaN"
| "fadd NegInf PosInf = NaN"
| "fadd PosInf _ = PosInf"
| "fadd _ PosInf = PosInf"
| "fadd NegInf _ = NegInf"
| "fadd _ NegInf = NegInf"

fun fneg :: "f64 \<Rightarrow> f64" where
  "fneg (Num x) = Num (- x)"
| "fneg PosInf = NegInf"
| "fneg NegInf = PosInf"
| "fneg NaN = NaN"

definition fsub :: "f64 \<Rightarrow> f64 \<Rightarrow> f64" where
  "fsub a b = fadd a (fneg b)"

fun fdiv :: "f64 \<Rightarrow> f64 \<Rightarrow> f64" where
  "fdiv (Num x) (Num y) =
     (if y = 0 then (if x = 0 then NaN else if 0 < x then PosInf else NegInf)
      else fl (x / y))"
| "fdiv NaN _ = NaN"
| "fdiv _ NaN = NaN"
| "fdiv (Num x) PosInf = Num 0"
| "fdiv (Num x) NegInf = Num 0"
| "fdiv PosInf (Num y) = (if 0 \<le> y then PosInf else NegInf)"
| "fdiv NegInf (Num y) = (if 0 \<le> y then NegInf else PosInf)"
| "fdiv PosInf PosInf = NaN"
| "fdiv PosInf NegInf = NaN"
| "fdiv NegInf PosInf = NaN"
| "fdiv NegInf NegInf = NaN"

fun fsqrt :: "f64 \<Rightarrow> f64" where
  "fsqrt (Num x) = (if x < 0 then NaN else fl (sqrt x))"
| "fsqrt PosInf = PosInf"
| "fsqrt NegInf = NaN"
| "fsqrt NaN = NaN"

fun flt :: "f64 \<Rightarrow> f64 \<Rightarrow> bool" where
  "flt (Num x) (Num y) = (x < y)"
| "flt NaN _ = False"
| "flt _ NaN = False"
| "flt _ NegInf = False"
| "flt PosInf _ = False"
| "flt NegInf _ = True"
| "flt _ PosInf = True"

fun fle :: "f64 \<Rightarrow> f64 \<Rightarrow> bool" where
  "fle (Num x) (Num y) = (x \<le> y)"
| "fle NaN _ = False"
| "fle _ NaN = False"
| "fle NegInf _ = True"
| "fle _ PosInf = True"
| "fle _ NegInf = False"
| "fle PosInf _ = False"


subsection \<open>The program\<close>

text \<open>
  The definitions of the first model again, operation by operation, in the order Python
  evaluates them: \<^verbatim>\<open>Cd * b * H * np.sqrt(2 * g * H)\<close> is
  \<^verbatim>\<open>((Cd * b) * H) * np.sqrt((2 * g) * H)\<close>.
\<close>

definition g_f64 :: f64 where
  "g_f64 = fl (981 / 100)"

definition broad_crested_weir_Q_f64 :: "f64 \<Rightarrow> f64 \<Rightarrow> f64 \<Rightarrow> f64" where
  "broad_crested_weir_Q_f64 b H Cd =
     fmul (fmul (fmul Cd b) H) (fsqrt (fmul (fmul (Num 2) g_f64) H))"

definition linspace_f64 :: "f64 \<Rightarrow> f64 \<Rightarrow> nat \<Rightarrow> f64 list" where
  "linspace_f64 start stop num =
     (let divisor = num - 1;
          delta = fsub stop start;
          y = map (\<lambda>i. Num (real i)) [0..<num];
          y = (if 0 < divisor
               then (let step = fdiv delta (Num (real divisor))
                     in if step = Num 0
                        then map (\<lambda>v. fmul (fdiv v (Num (real divisor))) delta) y
                        else map (\<lambda>v. fmul v step) y)
               else map (\<lambda>v. fmul v delta) y);
          y = map (\<lambda>v. fadd v start) y
      in if 1 < num then y[num - 1 := stop] else y)"

definition plot_broad_weir_f64 :: "f64 \<Rightarrow> f64 \<Rightarrow> f64 \<Rightarrow> f64 list \<times> f64 list" where
  "plot_broad_weir_f64 Cd b H_max =
     (let H_vals = linspace_f64 (fl (1 / 100)) H_max 300;
          Q_vals = map (\<lambda>H. broad_crested_weir_Q_f64 b H Cd) H_vals
      in (H_vals, Q_vals))"

section \<open>Properties of the discharge equation\<close>

lemma Q_of_nonneg:
  "0 \<le> H \<Longrightarrow> broad_crested_weir_Q b H Cd = Some (Cd * b * H * sqrt (2 * g * H))"
  by (simp add: broad_crested_weir_Q_def np_sqrt_def g_def not_less)

lemma Q_of_neg: "H < 0 \<Longrightarrow> broad_crested_weir_Q b H Cd = None"
  by (simp add: broad_crested_weir_Q_def np_sqrt_def g_def mult_less_0_iff)



lemma head_sqrt_strict_mono:
  assumes "0 < H1" and "H1 < H2"
  shows "H1 * sqrt (2 * g * H1) < H2 * sqrt (2 * g * H2)"
proof -
  have "sqrt (2 * g * H1) < sqrt (2 * g * H2)"
    using assms by (simp add: g_def)
  moreover have "0 \<le> sqrt (2 * g * H1)"
    using assms by (simp add: g_def)
  ultimately show ?thesis
    using assms by (intro mult_strict_mono) auto
qed

text \<open>In exact arithmetic the discharge is strictly increasing in the head.\<close>

lemma Q_strictly_increasing_exact:
  assumes "0 < Cd" and "0 < b" and "0 < H1" and "H1 < H2"
  shows "\<exists>Q1 Q2. broad_crested_weir_Q b H1 Cd = Some Q1 \<and>
                 broad_crested_weir_Q b H2 Cd = Some Q2 \<and> Q1 < Q2"
proof -
  have "0 < Cd * b"
    using assms by simp
  then have "Cd * b * (H1 * sqrt (2 * g * H1)) < Cd * b * (H2 * sqrt (2 * g * H2))"
    using head_sqrt_strict_mono [OF assms(3,4)] by (rule mult_strict_left_mono [rotated])
  then show ?thesis
    using assms by (simp add: Q_of_nonneg mult.assoc)
qed

text \<open>
  In exact arithmetic the discharge is linear in \<open>Cd\<close> and in \<open>b\<close>; where the head is
  negative both sides are NaN.
\<close>

lemma Q_linear_exact:
  "broad_crested_weir_Q b H (k * Cd) = map_option (\<lambda>Q. k * Q) (broad_crested_weir_Q b H Cd) \<and>
   broad_crested_weir_Q (k * b) H Cd = map_option (\<lambda>Q. k * Q) (broad_crested_weir_Q b H Cd) \<and>
   broad_crested_weir_Q b H (2 * Cd) = map_option (\<lambda>Q. 2 * Q) (broad_crested_weir_Q b H Cd) \<and>
   broad_crested_weir_Q (2 * b) H Cd = map_option (\<lambda>Q. 2 * Q) (broad_crested_weir_Q b H Cd)"
  by (simp add: broad_crested_weir_Q_def np_sqrt_def)

lemma head_powr_three_halves: "0 \<le> H \<Longrightarrow> H powr (3 / 2) = H * sqrt H"
proof -
  assume "0 \<le> H"
  have "H powr (3 / 2) = H powr (1 + 1 / 2)"
    by simp
  also have "\<dots> = H powr 1 * H powr (1 / 2)"
    by (rule powr_add)
  also have "\<dots> = H * sqrt H"
    using \<open>0 \<le> H\<close> by (simp add: powr_half_sqrt)
  finally show ?thesis .
qed

text \<open>
  Claim C7. For \<open>H > 0\<close> the implemented expression \<open>Cd * b * H * sqrt (2 * 9.81 * H)\<close>
  equals the power-law form \<open>Cd * b * sqrt (2 * 9.81) * H^1.5\<close>: the discharge
  function returns the value of the power law.
\<close>

theorem discharge_power_law:
  assumes "0 < H"
  shows "broad_crested_weir_Q b H Cd = Some (power_law_Q Cd b H)"
proof -
  have "sqrt (2 * g * H) = sqrt (2 * (981 / 100)) * sqrt H"
    unfolding g_def by (rule real_sqrt_mult)
  then have "Cd * b * H * sqrt (2 * g * H) = power_law_Q Cd b H"
    using assms by (simp add: power_law_Q_def head_powr_three_halves)
  then show ?thesis
    using assms by (simp add: Q_of_nonneg)
qed

theorem discharge_power_law_witness:
  "(0::real) < 4 \<and> broad_crested_weir_Q 2 4 (1 / 2) = Some (power_law_Q (1 / 2) 2 4)"
  using discharge_power_law [of 4 2 "1 / 2"] by simp

text \<open>
  Claim C8. The worked example: for \<open>Cd = 0.5\<close>, \<open>b = 2.0\<close>, \<open>H = 0.6\<close> the discharge
  function returns a number that is 2.06 to two decimals (it lies within 0.005 of
  2.06).
\<close>

theorem worked_example_discharge:
  "\<exists>Q. broad_crested_weir_Q 2 (3 / 5) (1 / 2) = Some Q \<and> \<bar>Q - 206 / 100\<bar> < 5 / 1000"
proof -
  have lo: "3425 / 1000 < sqrt (11772 / 1000)"
    by (rule real_less_rsqrt) (simp add: power2_eq_square)
  have hi: "sqrt (11772 / 1000) < 3441 / 1000"
    by (rule real_less_lsqrt) (simp_all add: power2_eq_square)
  have "broad_crested_weir_Q 2 (3 / 5) (1 / 2) = Some (3 / 5 * sqrt (11772 / 1000))"
    by (simp add: Q_of_nonneg g_def)
  moreover have "\<bar>3 / 5 * sqrt (11772 / 1000) - 206 / 100\<bar> < 5 / 1000"
    using lo hi by linarith
  ultimately show ?thesis
    by blast
qed

section \<open>The sampling grid\<close>

lemma length_linspace: "length (linspace start stop num) = num"
  by (simp add: linspace_def Let_def)

lemma nth_linspace:
  assumes "1 < num" and "i < num"
  shows "linspace start stop num ! i =
    (if i = num - 1 then stop else start + real i * ((stop - start) / real (num - 1)))"
proof -
  have "(stop - start) / real (num - 1) = 0 \<Longrightarrow> stop - start = 0"
    using assms by simp
  then show ?thesis
    using assms by (auto simp: linspace_def Let_def nth_list_update)
qed

lemma nth_linspace_affine:
  assumes "1 < num" and "i < num"
  shows "linspace start stop num ! i = start + real i * ((stop - start) / real (num - 1))"
proof (cases "i = num - 1")
  case True
  then have "real i * ((stop - start) / real (num - 1)) = stop - start"
    using assms by simp
  then show ?thesis
    using assms True by (simp add: nth_linspace)
next
  case False
  then show ?thesis
    using assms by (simp add: nth_linspace)
qed

lemma fst_plot_broad_weir: "fst (plot_broad_weir Cd b H_max) = linspace (1 / 100) H_max 300"
  by (simp add: plot_broad_weir_def Let_def)

lemma snd_plot_broad_weir:
  "snd (plot_broad_weir Cd b H_max) =
     map (\<lambda>H. broad_crested_weir_Q b H Cd) (linspace (1 / 100) H_max 300)"
  by (simp add: plot_broad_weir_def Let_def)

lemma length_H_vals: "length (fst (plot_broad_weir Cd b H_max)) = 300"
  by (simp add: fst_plot_broad_weir length_linspace)

lemma nth_H_vals:
  "i < 300 \<Longrightarrow>
   fst (plot_broad_weir Cd b H_max) ! i = 1 / 100 + real i * ((H_max - 1 / 100) / 299)"
  by (simp add: fst_plot_broad_weir nth_linspace_affine)

lemma first_H_val: "fst (plot_broad_weir Cd b H_max) ! 0 = 1 / 100"
  by (simp add: nth_H_vals)

lemma last_H_val: "fst (plot_broad_weir Cd b H_max) ! 299 = H_max"
  by (simp add: fst_plot_broad_weir nth_linspace)


lemma first_H_val_mem: "1 / 100 \<in> set (fst (plot_broad_weir Cd b H_max))"
proof -
  have "fst (plot_broad_weir Cd b H_max) ! 0 \<in> set (fst (plot_broad_weir Cd b H_max))"
    by (simp add: length_H_vals)
  then show ?thesis
    by (simp only: first_H_val)
qed

lemma last_H_val_mem: "H_max \<in> set (fst (plot_broad_weir Cd b H_max))"
proof -
  have "fst (plot_broad_weir Cd b H_max) ! 299 \<in> set (fst (plot_broad_weir Cd b H_max))"
    by (simp add: length_H_vals)
  then show ?thesis
    by (simp only: last_H_val)
qed

text \<open>Every sample is a point of the segment between the two ends of the grid.\<close>

lemma affine_between:
  fixes a c t :: real
  assumes "0 \<le> t" and "t \<le> 1"
  shows "min a c \<le> a + t * (c - a) \<and> a + t * (c - a) \<le> max a c"
proof (cases "a \<le> c")
  case True
  then have "0 \<le> t * (c - a)" and "0 \<le> (1 - t) * (c - a)"
    using assms by (auto intro: mult_nonneg_nonneg)
  then show ?thesis
    using True by (simp add: algebra_simps)
next
  case False
  then have "t * (c - a) \<le> 0" and "(1 - t) * (c - a) \<le> 0"
    using assms by (auto intro: mult_nonneg_nonpos)
  then show ?thesis
    using False by (simp add: algebra_simps)
qed

lemma H_vals_between:
  assumes "H \<in> set (fst (plot_broad_weir Cd b H_max))"
  shows "min (1 / 100) H_max \<le> H \<and> H \<le> max (1 / 100) H_max"
proof -
  from assms obtain i where i: "i < 300" and H: "H = fst (plot_broad_weir Cd b H_max) ! i"
    by (auto simp: in_set_conv_nth length_H_vals)
  have "0 \<le> real i / 299" and "real i / 299 \<le> 1"
    using i by simp_all
  from affine_between [OF this, of "1 / 100" H_max] show ?thesis
    using i by (simp add: H nth_H_vals)
qed

lemma H_vals_positive:
  assumes "0 < H_max" and "H \<in> set (fst (plot_broad_weir Cd b H_max))"
  shows "0 < H"
proof -
  have "0 < min (1 / 100) H_max"
    using assms(1) by simp
  then show ?thesis
    using H_vals_between [OF assms(2)] by linarith
qed

text \<open>The grid runs upwards exactly when its end \<open>H_max\<close> lies above its start 0.01.\<close>

lemma H_vals_sorted_iff:
  "sorted_wrt (<) (fst (plot_broad_weir Cd b H_max)) \<longleftrightarrow> 1 / 100 < H_max"
proof
  assume "sorted_wrt (<) (fst (plot_broad_weir Cd b H_max))"
  then have "fst (plot_broad_weir Cd b H_max) ! 0 < fst (plot_broad_weir Cd b H_max) ! 1"
    by (simp add: sorted_wrt_iff_nth_less length_H_vals)
  then show "1 / 100 < H_max"
    by (simp add: nth_H_vals)
next
  assume gt: "1 / 100 < H_max"
  have "fst (plot_broad_weir Cd b H_max) ! i < fst (plot_broad_weir Cd b H_max) ! j"
    if "i < j" "j < 300" for i j
  proof -
    have "0 < (H_max - 1 / 100) / 299"
      using gt by simp
    then have "real i * ((H_max - 1 / 100) / 299) < real j * ((H_max - 1 / 100) / 299)"
      using that by simp
    then show ?thesis
      using that by (simp add: nth_H_vals)
  qed
  then show "sorted_wrt (<) (fst (plot_broad_weir Cd b H_max))"
    by (simp add: sorted_wrt_iff_nth_less length_H_vals)
qed



text \<open>
  Claim C3, as amended. For every evaluation with \<open>H_max > 0\<close>, every head sample
  \<open>H\<close> lies between \<open>min 0.01 H_max\<close>, which is positive, and \<open>max 0.01 H_max\<close>, both
  bounds included (for \<open>H_max \<ge> 0.01\<close>: \<open>0.01 \<le> H \<le> H_max\<close>). The bounds are
  reached: the first of the 300 samples is 0.01 and the last is \<open>H_max\<close>, so the
  samples are not all strictly below \<open>H_max\<close>.
\<close>

theorem head_samples_within_inclusive_bounds:
  assumes "0 < H_max"
  shows "0 < min (1 / 100) H_max \<and>
         (\<forall>H \<in> set (fst (plot_broad_weir Cd b H_max)).
            min (1 / 100) H_max \<le> H \<and> H \<le> max (1 / 100) H_max) \<and>
         length (fst (plot_broad_weir Cd b H_max)) = 300 \<and>
         fst (plot_broad_weir Cd b H_max) ! 0 = 1 / 100 \<and>
         fst (plot_broad_weir Cd b H_max) ! 299 = H_max \<and>
         1 / 100 \<in> set (fst (plot_broad_weir Cd b H_max)) \<and>
         H_max \<in> set (fst (plot_broad_weir Cd b H_max))"
  using assms H_vals_between [of _ Cd b H_max] first_H_val_mem [of Cd b H_max]
    last_H_val_mem [of H_max Cd b] first_H_val [of Cd b H_max] last_H_val [of Cd b H_max]
    length_H_vals [of Cd b H_max]
  by simp

theorem head_samples_within_inclusive_bounds_witness:
  "(0::real) < 1 \<and>
   1 / 100 \<le> fst (plot_broad_weir (1 / 2) 1 1) ! 150 \<and>
   fst (plot_broad_weir (1 / 2) 1 1) ! 150 \<le> 1 \<and>
   fst (plot_broad_weir (1 / 2) 1 1) ! 0 = 1 / 100 \<and>
   fst (plot_broad_weir (1 / 2) 1 1) ! 299 = 1 \<and>
   1 \<in> set (fst (plot_broad_weir (1 / 2) 1 1))"
proof -
  have "fst (plot_broad_weir (1 / 2) 1 1) ! 150 \<in> set (fst (plot_broad_weir (1 / 2) 1 1))"
    by (simp add: length_H_vals)
  then show ?thesis
    using head_samples_within_inclusive_bounds [of 1 "1 / 2" 1] by simp
qed

text \<open>
  The claim as first stated asks for \<open>H < H_max\<close> at every sample, for every
  \<open>H_max > 0\<close>. With \<open>H_max = 1\<close> (and \<open>Cd = 0.5\<close>, \<open>b = 1\<close>) the last of the 300
  samples is \<open>H_max\<close> itself; and with \<open>H_max = 0.005\<close> the first sample, 0.01, even
  lies above \<open>H_max\<close>, which is why the upper bound of the amended claim is
  \<open>max 0.01 H_max\<close>.
\<close>

theorem head_samples_reach_and_exceed_H_max:
  "length (fst (plot_broad_weir (1 / 2) 1 1)) = 300 \<and>
   fst (plot_broad_weir (1 / 2) 1 1) ! 299 = 1 \<and>
   \<not> fst (plot_broad_weir (1 / 2) 1 1) ! 299 < 1 \<and>
   (0::real) < 1 / 200 \<and>
   fst (plot_broad_weir (1 / 2) 1 (1 / 200)) ! 0 = 1 / 100 \<and>
   \<not> fst (plot_broad_weir (1 / 2) 1 (1 / 200)) ! 0 \<le> 1 / 200"
  by (simp add: length_H_vals first_H_val last_H_val)

section \<open>The curve\<close>

lemma length_Q_vals: "length (snd (plot_broad_weir Cd b H_max)) = 300"
  by (simp add: snd_plot_broad_weir length_linspace)

text \<open>Each plotted discharge is the discharge function at the head of the same index.\<close>

lemma nth_Q_vals:
  assumes "i < 300"
  shows "snd (plot_broad_weir Cd b H_max) ! i =
    broad_crested_weir_Q b (fst (plot_broad_weir Cd b H_max) ! i) Cd"
  using assms by (simp add: snd_plot_broad_weir fst_plot_broad_weir length_linspace)

text \<open>For a positive \<open>H_max\<close> no plotted discharge is NaN.\<close>

lemma Q_vals_no_NaN:
  assumes "0 < H_max" and "q \<in> set (snd (plot_broad_weir Cd b H_max))"
  shows "q \<noteq> None"
proof -
  from assms(2) obtain H where H: "H \<in> set (fst (plot_broad_weir Cd b H_max))"
    and q: "q = broad_crested_weir_Q b H Cd"
    by (auto simp: snd_plot_broad_weir fst_plot_broad_weir)
  have "0 < H"
    using assms(1) H by (rule H_vals_positive)
  then show ?thesis
    by (simp add: q Q_of_nonneg)
qed

text \<open>
  Claim C10. The head samples of an evaluation depend on \<open>H_max\<close> alone: two runs
  that differ only in \<open>Cd\<close> and \<open>b\<close> plot the same head values, and both arrays of
  either run have the same length (300). Only the discharge values can differ.
\<close>

theorem head_samples_independent_of_Cd_b:
  "fst (plot_broad_weir Cd b H_max) = fst (plot_broad_weir Cd' b' H_max) \<and>
   length (fst (plot_broad_weir Cd b H_max)) = 300 \<and>
   length (snd (plot_broad_weir Cd b H_max)) = length (snd (plot_broad_weir Cd' b' H_max)) \<and>
   length (snd (plot_broad_weir Cd b H_max)) = 300"
  by (simp add: fst_plot_broad_weir snd_plot_broad_weir length_linspace)

section \<open>Rounding to the nearest double\<close>

lemma round_half_even_eqI:
  assumes "of_int n - 1 / 2 < y" and "y < of_int n + 1 / 2"
  shows "round_half_even y = n"
proof (cases "of_int n \<le> y")
  case True
  then have "\<lfloor>y\<rfloor> = n"
    using assms by (intro floor_unique) auto
  then show ?thesis
    using assms by (simp add: round_half_even_def Let_def)
next
  case False
  then have "\<lfloor>y\<rfloor> = n - 1"
    using assms by (intro floor_unique) auto
  then show ?thesis
    using assms False by (simp add: round_half_even_def Let_def)
qed

lemma binade_eqI:
  assumes "2 powi e \<le> \<bar>x\<bar>" and "\<bar>x\<bar> < 2 powi (e + 1)" and "- 1022 \<le> e"
  shows "binade x = e"
proof -
  have pos: "0 < \<bar>x\<bar>"
    using assms(1) by (smt (verit) zero_less_power_int)
  have "\<lfloor>log 2 \<bar>x\<bar>\<rfloor> = e"
  proof (rule floor_unique)
    show "of_int e \<le> log 2 \<bar>x\<bar>"
      using assms(1) pos by (simp add: le_log_iff powr_real_of_int')
    have "log 2 \<bar>x\<bar> < of_int (e + 1)"
      using assms(2) pos by (simp add: log_less_iff powr_real_of_int' del: of_int_add)
    then show "log 2 \<bar>x\<bar> < of_int e + 1"
      by simp
  qed
  then show ?thesis
    using assms(3) by (simp add: binade_def)
qed

lemma rnd_eqI:
  assumes "2 powi e \<le> \<bar>x\<bar>" and "\<bar>x\<bar> < 2 powi (e + 1)" and "- 1022 \<le> e"
    and "of_int n - 1 / 2 < x / 2 powi (e - 52)" and "x / 2 powi (e - 52) < of_int n + 1 / 2"
  shows "rnd x = of_int n * 2 powi (e - 52)"
  using binade_eqI [OF assms(1-3)] round_half_even_eqI [OF assms(4,5)]
  by (simp add: rnd_def ulp_def)

lemma round_half_even_bounds:
  "real_of_int (round_half_even y) \<le> y + 1 / 2" "y - 1 / 2 \<le> real_of_int (round_half_even y)"
  unfolding round_half_even_def Let_def by (auto; linarith)+

lemma round_half_even_of_int [simp]: "round_half_even (of_int n) = n"
  by (rule round_half_even_eqI) simp_all

lemma round_half_even_mono:
  assumes "x \<le> y"
  shows "round_half_even x \<le> round_half_even y"
proof (cases "\<lfloor>x\<rfloor> = \<lfloor>y\<rfloor>")
  case True
  then show ?thesis
    using assms unfolding round_half_even_def Let_def by auto
next
  case False
  then have "\<lfloor>x\<rfloor> + 1 \<le> \<lfloor>y\<rfloor>"
    using floor_mono [OF assms] by linarith
  moreover have "round_half_even x \<le> \<lfloor>x\<rfloor> + 1" "\<lfloor>y\<rfloor> \<le> round_half_even y"
    unfolding round_half_even_def Let_def by auto
  ultimately show ?thesis
    by linarith
qed

lemma round_half_even_0 [simp]: "round_half_even 0 = 0"
  using round_half_even_of_int [of 0] by simp

lemma ulp_pos [simp]: "0 < ulp x"
  by (simp add: ulp_def)

lemma ulp_nonneg [simp]: "0 \<le> ulp x"
  by (rule less_imp_le) (rule ulp_pos)

lemma ulp_neq_0 [simp]: "ulp x \<noteq> 0"
  by (metis ulp_pos less_irrefl)

lemma rnd_0 [simp]: "rnd 0 = 0"
  by (simp add: rnd_def)

lemma rnd_nonneg: "0 \<le> x \<Longrightarrow> 0 \<le> rnd x"
proof -
  assume "0 \<le> x"
  then have "0 \<le> x / ulp x"
    by simp
  then have "round_half_even 0 \<le> round_half_even (x / ulp x)"
    by (rule round_half_even_mono)
  then show ?thesis
    by (simp add: rnd_def)
qed

lemma rnd_error: "\<bar>rnd x - x\<bar> \<le> ulp x / 2"
proof -
  define y where "y = x / ulp x"
  have x: "x = y * ulp x"
    by (simp add: y_def)
  have "\<bar>real_of_int (round_half_even y) - y\<bar> \<le> 1 / 2"
    using round_half_even_bounds [of y] by linarith
  then have "\<bar>real_of_int (round_half_even y) - y\<bar> * ulp x \<le> 1 / 2 * ulp x"
    by (intro mult_right_mono) simp_all
  moreover have "rnd x - x = (real_of_int (round_half_even y) - y) * ulp x"
    using x by (simp add: rnd_def y_def left_diff_distrib)
  ultimately show ?thesis
    by (simp add: abs_mult)
qed

lemma floor_log2_bounds:
  assumes "x \<noteq> 0"
  shows "2 powi \<lfloor>log 2 \<bar>x\<bar>\<rfloor> \<le> \<bar>x\<bar>" and "\<bar>x\<bar> < 2 powi (\<lfloor>log 2 \<bar>x\<bar>\<rfloor> + 1)"
proof -
  define L where "L = \<lfloor>log 2 \<bar>x\<bar>\<rfloor>"
  have pos: "0 < \<bar>x\<bar>"
    using assms by simp
  have "real_of_int L \<le> log 2 \<bar>x\<bar>" and "log 2 \<bar>x\<bar> < real_of_int (L + 1)"
    unfolding L_def by linarith+
  then have "2 powr real_of_int L \<le> \<bar>x\<bar>" and "\<bar>x\<bar> < 2 powr real_of_int (L + 1)"
    using pos by (simp_all only: le_log_iff log_less_iff one_less_numeral_iff semiring_norm)
  then show "2 powi \<lfloor>log 2 \<bar>x\<bar>\<rfloor> \<le> \<bar>x\<bar>" and "\<bar>x\<bar> < 2 powi (\<lfloor>log 2 \<bar>x\<bar>\<rfloor> + 1)"
    unfolding L_def [symmetric] by (simp_all only: powr_real_of_int' [of 2, simplified])
qed

lemma binade_ge: "- 1022 \<le> binade x"
  by (simp add: binade_def)

lemma binade_upper:
  assumes "x \<noteq> 0"
  shows "\<bar>x\<bar> < 2 powi (binade x + 1)"
proof -
  have "\<lfloor>log 2 \<bar>x\<bar>\<rfloor> + 1 \<le> binade x + 1"
    by (simp add: binade_def)
  then have "(2::real) powi (\<lfloor>log 2 \<bar>x\<bar>\<rfloor> + 1) \<le> 2 powi (binade x + 1)"
    by (intro power_int_increasing) simp_all
  then show ?thesis
    using floor_log2_bounds(2) [OF assms] by linarith
qed

lemma binade_lower:
  assumes "2 powi (- 1022) \<le> \<bar>x\<bar>"
  shows "2 powi binade x \<le> \<bar>x\<bar>"
proof -
  have nz: "x \<noteq> 0"
    using assms by (smt (verit) zero_less_power_int abs_zero)
  have "\<not> \<lfloor>log 2 \<bar>x\<bar>\<rfloor> < - 1022"
  proof
    assume "\<lfloor>log 2 \<bar>x\<bar>\<rfloor> < - 1022"
    then have "\<lfloor>log 2 \<bar>x\<bar>\<rfloor> + 1 \<le> - 1022"
      by linarith
    then have "(2::real) powi (\<lfloor>log 2 \<bar>x\<bar>\<rfloor> + 1) \<le> 2 powi (- 1022)"
      by (intro power_int_increasing) simp_all
    then show False
      using floor_log2_bounds(2) [OF nz] assms by linarith
  qed
  then have "binade x = \<lfloor>log 2 \<bar>x\<bar>\<rfloor>"
    by (simp add: binade_def)
  then show ?thesis
    using floor_log2_bounds(1) [OF nz] by simp
qed

lemma binade_mono:
  assumes "0 < x" and "x \<le> y"
  shows "binade x \<le> binade y"
proof -
  have "log 2 \<bar>x\<bar> \<le> log 2 \<bar>y\<bar>"
    using assms by simp
  then have "\<lfloor>log 2 \<bar>x\<bar>\<rfloor> \<le> \<lfloor>log 2 \<bar>y\<bar>\<rfloor>"
    by (rule floor_mono)
  then show ?thesis
    by (simp add: binade_def)
qed

text \<open>Grid points: integer multiples of the spacing around \<open>x\<close>.\<close>

lemma rnd_ge_grid:
  assumes "of_int m * ulp x \<le> x"
  shows "of_int m * ulp x \<le> rnd x"
proof -
  have "of_int m \<le> x / ulp x"
    using assms by (simp add: pos_le_divide_eq)
  then have "round_half_even (of_int m) \<le> round_half_even (x / ulp x)"
    by (rule round_half_even_mono)
  then have "real_of_int m \<le> real_of_int (round_half_even (x / ulp x))"
    by simp
  then show ?thesis
    unfolding rnd_def by (intro mult_right_mono) simp_all
qed

lemma rnd_le_grid:
  assumes "x \<le> of_int m * ulp x"
  shows "rnd x \<le> of_int m * ulp x"
proof -
  have "x / ulp x \<le> of_int m"
    using assms by (simp add: pos_divide_le_eq)
  then have "round_half_even (x / ulp x) \<le> round_half_even (of_int m)"
    by (rule round_half_even_mono)
  then have "real_of_int (round_half_even (x / ulp x)) \<le> real_of_int m"
    by simp
  then show ?thesis
    unfolding rnd_def by (intro mult_right_mono) simp_all
qed

lemma two_powi_grid:
  assumes "binade x - 52 \<le> k"
  shows "(2::real) powi k = of_int (2 ^ nat (k - (binade x - 52))) * ulp x"
proof -
  have "(2::real) powi k = 2 powi ((k - (binade x - 52)) + (binade x - 52))"
    by simp
  also have "\<dots> = 2 powi (k - (binade x - 52)) * 2 powi (binade x - 52)"
    by (subst power_int_add) simp_all
  also have "2 powi (k - (binade x - 52)) = (2::real) ^ nat (k - (binade x - 52))"
    using assms by (simp add: power_int_def)
  finally show ?thesis
    by (simp add: ulp_def)
qed

lemma rnd_ge_two_powi:
  assumes "- 1074 \<le> k" and "2 powi k \<le> x"
  shows "2 powi k \<le> rnd x"
proof (cases "binade x - 52 \<le> k")
  case True
  show ?thesis
    using assms(2) rnd_ge_grid [of "2 ^ nat (k - (binade x - 52))" x]
    unfolding two_powi_grid [OF True] by simp
next
  case False
  have xpos: "0 < x"
    using assms(2) by (smt (verit) zero_less_power_int)
  from False assms(1) have "- 1022 < binade x"
    by simp
  then have "binade x = \<lfloor>log 2 \<bar>x\<bar>\<rfloor>"
    by (simp add: binade_def max_def split: if_splits)
  then have "2 powi binade x \<le> x"
    using floor_log2_bounds(1) [of x] xpos by simp
  then have "2 powi binade x \<le> rnd x"
    using rnd_ge_grid [of "2 ^ nat (binade x - (binade x - 52))" x]
    unfolding two_powi_grid [of x "binade x", simplified] by simp
  moreover have "(2::real) powi k \<le> 2 powi binade x"
    using False by (intro power_int_increasing) simp_all
  ultimately show ?thesis
    by linarith
qed

lemma rnd_le_two_powi:
  assumes "- 1074 \<le> k" and "0 \<le> x" and "x \<le> 2 powi k"
  shows "rnd x \<le> 2 powi k"
proof (cases "x = 0")
  case True
  then show ?thesis
    by simp
next
  case False
  have "binade x - 52 \<le> k"
  proof (rule ccontr)
    assume "\<not> binade x - 52 \<le> k"
    then have k: "k < binade x - 52"
      by simp
    with assms(1) have "- 1022 < binade x"
      by simp
    then have "binade x = \<lfloor>log 2 \<bar>x\<bar>\<rfloor>"
      by (simp add: binade_def max_def split: if_splits)
    then have "2 powi binade x \<le> x"
      using floor_log2_bounds(1) [of x] False assms(2) by simp
    moreover have "(2::real) powi k < 2 powi binade x"
      using k by (intro power_int_strict_increasing) simp_all
    ultimately show False
      using assms(3) by linarith
  qed
  then show ?thesis
    using assms(3) rnd_le_grid [of x "2 ^ nat (k - (binade x - 52))"]
    unfolding two_powi_grid [OF \<open>binade x - 52 \<le> k\<close>] by simp
qed

lemma binade_lower':
  assumes "- 1022 < binade x" and "x \<noteq> 0"
  shows "2 powi binade x \<le> \<bar>x\<bar>"
proof -
  have "binade x = \<lfloor>log 2 \<bar>x\<bar>\<rfloor>"
    using assms(1) by (simp add: binade_def max_def split: if_splits)
  then show ?thesis
    using floor_log2_bounds(1) [OF assms(2)] by simp
qed

lemma rnd_two_powi:
  assumes "- 1074 \<le> k"
  shows "rnd (2 powi k) = 2 powi k"
  using rnd_ge_two_powi [OF assms, of "2 powi k"] rnd_le_two_powi [OF assms, of "2 powi k"]
  by simp


lemma rnd_mono:
  assumes "0 \<le> x" and "x \<le> y"
  shows "rnd x \<le> rnd y"
proof (cases "x = 0")
  case True
  then show ?thesis
    using assms rnd_nonneg [of y] by simp
next
  case False
  then have pos: "0 < x" "0 < y"
    using assms by simp_all
  show ?thesis
  proof (cases "binade x = binade y")
    case True
    then have u: "ulp y = ulp x"
      by (simp add: ulp_def)
    have "x / ulp x \<le> y / ulp x"
      using assms(2) by (simp add: divide_right_mono)
    then have "round_half_even (x / ulp x) \<le> round_half_even (y / ulp x)"
      by (rule round_half_even_mono)
    then have "real_of_int (round_half_even (x / ulp x)) \<le> real_of_int (round_half_even (y / ulp x))"
      by simp
    then show ?thesis
      unfolding rnd_def u by (intro mult_right_mono) simp_all
  next
    case False
    then have lt: "binade x < binade y"
      using binade_mono [OF pos(1) assms(2)] by simp
    have "x \<le> 2 powi (binade x + 1)"
      using binade_upper [of x] pos by simp
    then have "rnd x \<le> 2 powi (binade x + 1)"
      using binade_ge [of x] assms(1) by (intro rnd_le_two_powi) simp_all
    also have "(2::real) powi (binade x + 1) \<le> 2 powi binade y"
      using lt by (intro power_int_increasing) simp_all
    also have "2 powi binade y \<le> rnd y"
    proof (rule rnd_ge_two_powi)
      show "- 1074 \<le> binade y"
        using binade_ge [of y] by simp
      have "- 1022 < binade y"
        using lt binade_ge [of x] by simp
      then show "2 powi binade y \<le> y"
        using binade_lower' [of y] pos by simp
    qed
    finally show ?thesis .
  qed
qed

lemma ulp_normal:
  assumes "2 powi (- 1022) \<le> \<bar>x\<bar>"
  shows "ulp x \<le> 2 powi (- 52) * \<bar>x\<bar>"
proof -
  have "ulp x = 2 powi (- 52) * 2 powi binade x"
    unfolding ulp_def by (subst power_int_add [symmetric]) (simp_all add: add.commute)
  moreover have "2 powi binade x \<le> \<bar>x\<bar>"
    using assms by (rule binade_lower)
  ultimately show ?thesis
    by (simp add: mult_left_mono)
qed

lemma rnd_rel_error:
  assumes "2 powi (- 1022) \<le> \<bar>x\<bar>"
  shows "\<bar>rnd x - x\<bar> \<le> 2 powi (- 53) * \<bar>x\<bar>"
proof -
  have "\<bar>rnd x - x\<bar> \<le> ulp x / 2"
    by (rule rnd_error)
  also have "\<dots> \<le> (2 powi (- 52) * \<bar>x\<bar>) / 2"
    using ulp_normal [OF assms] by simp
  also have "\<dots> = 2 powi (- 53) * \<bar>x\<bar>"
    by (simp add: power_int_def power_one_over)
  finally show ?thesis .
qed

lemma rnd_times_2:
  assumes "2 powi (- 1022) \<le> \<bar>x\<bar>"
  shows "rnd (2 * x) = 2 * rnd x"
proof -
  have nz: "x \<noteq> 0"
    using assms by (smt (verit) zero_less_power_int abs_zero)
  have lo: "2 powi binade x \<le> \<bar>x\<bar>"
    using assms by (rule binade_lower)
  have hi: "\<bar>x\<bar> < 2 powi (binade x + 1)"
    using nz by (rule binade_upper)
  have "binade (2 * x) = binade x + 1"
  proof (rule binade_eqI)
    show "2 powi (binade x + 1) \<le> \<bar>2 * x\<bar>"
      using lo by (simp add: power_int_add)
    show "\<bar>2 * x\<bar> < 2 powi (binade x + 1 + 1)"
      using hi by (simp add: power_int_add)
    show "- 1022 \<le> binade x + 1"
      using binade_ge [of x] by simp
  qed
  then have "ulp (2 * x) = 2 * ulp x"
    by (simp add: ulp_def power_int_add power_int_diff)
  then show ?thesis
    by (simp add: rnd_def)
qed

lemma round_half_even_char:
  "\<bar>real_of_int (round_half_even y) - y\<bar> < 1 / 2 \<or>
   (\<bar>real_of_int (round_half_even y) - y\<bar> = 1 / 2 \<and> even (round_half_even y))"
  unfolding round_half_even_def Let_def by (auto; linarith)

lemma round_half_even_tieI:
  assumes "\<bar>real_of_int n - y\<bar> = 1 / 2" and "even n"
  shows "round_half_even y = n"
proof (cases "real_of_int n \<le> y")
  case True
  then have y: "y = real_of_int n + 1 / 2"
    using assms(1) by linarith
  then have "\<lfloor>y\<rfloor> = n"
    by (intro floor_unique) auto
  then show ?thesis
    using assms(2) y by (simp add: round_half_even_def Let_def)
next
  case False
  then have y: "y = real_of_int n - 1 / 2"
    using assms(1) by linarith
  then have "\<lfloor>y\<rfloor> = n - 1"
    by (intro floor_unique) auto
  then show ?thesis
    using assms(2) y by (simp add: round_half_even_def Let_def)
qed

lemma round_half_even_minus: "round_half_even (- y) = - round_half_even y"
proof -
  define n where "n = round_half_even y"
  from round_half_even_char [of y]
  consider "\<bar>real_of_int n - y\<bar> < 1 / 2" | "\<bar>real_of_int n - y\<bar> = 1 / 2" "even n"
    unfolding n_def by blast
  then have "round_half_even (- y) = - n"
  proof cases
    case 1
    then have "real_of_int (- n) - 1 / 2 < - y" and "- y < real_of_int (- n) + 1 / 2"
      unfolding of_int_minus by linarith+
    then show ?thesis
      by (rule round_half_even_eqI)
  next
    case 2
    then have "\<bar>real_of_int (- n) - (- y)\<bar> = 1 / 2" and "even (- n)"
      unfolding of_int_minus by (linarith, simp)
    then show ?thesis
      by (rule round_half_even_tieI)
  qed
  then show ?thesis
    by (simp add: n_def)
qed

lemma ulp_minus [simp]: "ulp (- x) = ulp x"
  by (simp add: ulp_def binade_def)

lemma rnd_minus: "rnd (- x) = - rnd x"
  by (simp add: rnd_def round_half_even_minus)

lemma rnd_grid_point:
  assumes "x = real_of_int m * ulp x"
  shows "rnd x = x"
proof -
  have "x / ulp x = real_of_int m"
    using assms by (simp add: nonzero_divide_eq_eq)
  then show ?thesis
    using assms by (simp add: rnd_def)
qed

lemma rnd_idem_nonneg:
  assumes "0 \<le> x"
  shows "rnd (rnd x) = rnd x"
proof (cases "rnd x = 0")
  case True
  then show ?thesis by simp
next
  case False
  then have xnz: "x \<noteq> 0"
    by auto
  then have xpos: "0 < x"
    using assms by simp
  have rpos: "0 < rnd x"
    using False rnd_nonneg [OF assms] by simp
  have hi: "rnd x \<le> 2 powi (binade x + 1)"
    using binade_upper [OF xnz] xpos binade_ge [of x] by (intro rnd_le_two_powi) simp_all
  show ?thesis
  proof (cases "rnd x = 2 powi (binade x + 1)")
    case True
    then show ?thesis
      using binade_ge [of x] by (simp add: rnd_two_powi)
  next
    case False
    then have lt: "\<bar>rnd x\<bar> < 2 powi (binade x + 1)"
      using hi rpos by simp
    have "binade (rnd x) = binade x"
    proof (cases "- 1022 < binade x")
      case True
      have "2 powi binade x \<le> x"
        using binade_lower' [OF True xnz] xpos by simp
      then have "2 powi binade x \<le> rnd x"
        using True by (intro rnd_ge_two_powi) simp_all
      then have "2 powi binade x \<le> \<bar>rnd x\<bar>"
        using rpos by simp
      then show ?thesis
        using lt True by (intro binade_eqI) simp_all
    next
      case F: False
      then have b: "binade x = - 1022"
        using binade_ge [of x] by linarith
      have "\<not> - 1022 < binade (rnd x)"
      proof
        assume a: "- 1022 < binade (rnd x)"
        then have "(2::real) powi (- 1022 + 1) \<le> 2 powi binade (rnd x)"
          by (intro power_int_increasing) simp_all
        moreover have "2 powi binade (rnd x) \<le> \<bar>rnd x\<bar>"
          using a rpos by (intro binade_lower') simp_all
        ultimately show False
          using lt unfolding b by linarith
      qed
      then show ?thesis
        using binade_ge [of "rnd x"] b by linarith
    qed
    then have "ulp (rnd x) = ulp x"
      by (simp add: ulp_def)
    then have "rnd x = real_of_int (round_half_even (x / ulp x)) * ulp (rnd x)"
      by (simp add: rnd_def)
    then show ?thesis
      by (rule rnd_grid_point)
  qed
qed

lemma rnd_idem [simp]: "rnd (rnd x) = rnd x"
proof (cases "0 \<le> x")
  case True
  then show ?thesis
    by (rule rnd_idem_nonneg)
next
  case False
  then have "rnd (rnd (- x)) = rnd (- x)"
    by (intro rnd_idem_nonneg) simp
  then show ?thesis
    by (simp add: rnd_minus)
qed

section \<open>Ranges of the operations\<close>

lemma fl_not_NaN [simp]: "fl x \<noteq> NaN"
  by (simp add: fl_def Let_def)

lemma max_f64_pos: "0 < max_f64"
  by (simp add: max_f64_def)

lemma fl_Num: "\<bar>rnd x\<bar> \<le> max_f64 \<Longrightarrow> fl x = Num (rnd x)"
  by (auto simp: fl_def Let_def)

lemma fl_Num_D: "fl x = Num r \<Longrightarrow> r = rnd x \<and> \<bar>r\<bar> \<le> max_f64"
  by (auto simp: fl_def Let_def split: if_splits)

lemma fl_0 [simp]: "fl 0 = Num 0"
  using max_f64_pos by (simp add: fl_Num)

lemma two_powi_1023_le_max: "2 powi 1023 \<le> max_f64"
  by (simp add: max_f64_def)


lemma fl_range:
  assumes "- 1074 \<le> lo" and "hi \<le> 1023" and "2 powi lo \<le> x" and "x \<le> 2 powi hi"
  shows "\<exists>r. fl x = Num r \<and> 2 powi lo \<le> r \<and> r \<le> 2 powi hi"
proof -
  have xpos: "0 < x"
    using assms(3) by (smt (verit) zero_less_power_int)
  have lo: "2 powi lo \<le> rnd x"
    using assms(1,3) by (rule rnd_ge_two_powi)
  have "- 1074 \<le> hi"
  proof (rule ccontr)
    assume "\<not> - 1074 \<le> hi"
    then have "(2::real) powi hi < 2 powi lo"
      using assms(1) by (intro power_int_strict_increasing) simp_all
    then show False
      using assms(3,4) by linarith
  qed
  then have hi: "rnd x \<le> 2 powi hi"
    using xpos assms(4) by (intro rnd_le_two_powi) simp_all
  have "(2::real) powi hi \<le> 2 powi 1023"
    using assms(2) by (intro power_int_increasing) simp_all
  then have "rnd x \<le> max_f64"
    using hi two_powi_1023_le_max by linarith
  moreover have "0 \<le> rnd x"
    using xpos by (intro rnd_nonneg) simp
  ultimately have "fl x = Num (rnd x)"
    by (intro fl_Num) simp
  then show ?thesis
    using lo hi by simp
qed



lemma rnd_g: "rnd (981 / 100) = 5522539043063071 / 2 ^ 49"
proof -
  have "rnd (981 / 100) = of_int 5522539043063071 * 2 powi (3 - 52)"
    by (rule rnd_eqI) (simp_all add: power_int_def power_one_over)
  then show ?thesis
    by (simp add: power_int_def power_one_over)
qed

lemma rnd_two_g: "rnd (2 * (5522539043063071 / 2 ^ 49)) = 5522539043063071 / 2 ^ 48"
proof -
  have "rnd (2 * (5522539043063071 / 2 ^ 49)) = of_int 5522539043063071 * 2 powi (4 - 52)"
    by (rule rnd_eqI) (simp_all add: power_int_def power_one_over)
  then show ?thesis
    by (simp add: power_int_def power_one_over)
qed

lemma g_f64_value: "g_f64 = Num (5522539043063071 / 2 ^ 49)"
  unfolding g_f64_def by (subst fl_Num) (simp_all add: rnd_g max_f64_def)

lemma two_g_f64: "fmul (Num 2) g_f64 = Num (5522539043063071 / 2 ^ 48)"
proof -
  have "fmul (Num 2) g_f64 = fl (2 * (5522539043063071 / 2 ^ 49))"
    by (simp only: g_f64_value fmul.simps)
  also have "\<dots> = Num (rnd (2 * (5522539043063071 / 2 ^ 49)))"
    by (rule fl_Num) (simp only: rnd_two_g, simp add: max_f64_def)
  finally show ?thesis
    by (simp only: rnd_two_g)
qed

lemma two_powi_le_pos:
  fixes x :: real
  assumes "2 powi a \<le> x"
  shows "0 < x"
  using assms by (smt (verit) zero_less_power_int)

lemma two_powi_mult_ge:
  fixes x y :: real
  assumes "2 powi a \<le> x" and "2 powi b \<le> y"
  shows "2 powi (a + b) \<le> x * y"
proof -
  have "0 \<le> x"
    using two_powi_le_pos [OF assms(1)] by simp
  then have "(2::real) powi a * 2 powi b \<le> x * y"
    using assms by (intro mult_mono) simp_all
  then show ?thesis
    by (simp add: power_int_add)
qed

lemma two_powi_mult_le:
  fixes x y :: real
  assumes "0 \<le> x" and "x \<le> 2 powi a" and "0 \<le> y" and "y \<le> 2 powi b"
  shows "x * y \<le> 2 powi (a + b)"
proof -
  have "x * y \<le> 2 powi a * 2 powi b"
    using assms by (intro mult_mono) simp_all
  then show ?thesis
    by (simp add: power_int_add)
qed

lemma two_powi_mult_bounds:
  fixes x y :: real
  assumes "2 powi a \<le> x" and "x \<le> 2 powi a'" and "2 powi b \<le> y" and "y \<le> 2 powi b'"
  shows "2 powi (a + b) \<le> x * y" and "x * y \<le> 2 powi (a' + b')"
  using two_powi_mult_ge [OF assms(1,3)]
    two_powi_mult_le [OF _ assms(2) _ assms(4)] two_powi_le_pos [OF assms(1)]
    two_powi_le_pos [OF assms(3)]
  by simp_all

lemma fmul_range:
  assumes "2 powi a \<le> x" and "x \<le> 2 powi a'" and "2 powi b \<le> y" and "y \<le> 2 powi b'"
    and "- 1074 \<le> a + b" and "a' + b' \<le> 1023"
  shows "\<exists>r. fmul (Num x) (Num y) = Num r \<and> 2 powi (a + b) \<le> r \<and> r \<le> 2 powi (a' + b')"
  using fl_range [OF assms(5,6) two_powi_mult_bounds [OF assms(1-4)]] by simp

lemma sqrt_two_powi: "sqrt (2 powi (2 * a)) = 2 powi a"
proof -
  have "(2::real) powi (2 * a) = (2 powi a)\<^sup>2"
    by (simp add: power2_eq_square power_int_add [symmetric])
  then show ?thesis
    by simp
qed

lemma fsqrt_range:
  assumes "2 powi (2 * a) \<le> x" and "x \<le> 2 powi (2 * a')" and "- 1074 \<le> a" and "a' \<le> 1023"
  shows "\<exists>r. fsqrt (Num x) = Num r \<and> 2 powi a \<le> r \<and> r \<le> 2 powi a'"
proof -
  have "0 < x"
    using assms(1) by (smt (verit) zero_less_power_int)
  moreover have "2 powi a \<le> sqrt x"
    using real_sqrt_le_mono [OF assms(1)] by (simp only: sqrt_two_powi)
  moreover have "sqrt x \<le> 2 powi a'"
    using real_sqrt_le_mono [OF assms(2)] by (simp only: sqrt_two_powi)
  ultimately show ?thesis
    using fl_range [OF assms(3,4), of "sqrt x"] by simp
qed

lemma two_g_bounds: "2 powi 4 \<le> (5522539043063071 / 2 ^ 48 :: real)" "(5522539043063071 / 2 ^ 48 :: real) \<le> 2 powi 5"
  by simp_all


section \<open>NaN in the discharge\<close>





lemma Q_f64_in_range:
  assumes "2 powi (- 100) \<le> c" "c \<le> 2 powi 100" "2 powi (- 100) \<le> d" "d \<le> 2 powi 100"
    "2 powi (- 100) \<le> h" "h \<le> 2 powi 100"
  shows "\<exists>q. broad_crested_weir_Q_f64 (Num d) (Num h) (Num c) = Num q \<and>
             2 powi (- 348) \<le> q \<and> q \<le> 2 powi 353"
proof -
  obtain p where p: "fmul (Num c) (Num d) = Num p" "2 powi (- 200) \<le> p" "p \<le> 2 powi 200"
    using fmul_range [OF assms(1-4)] by auto
  obtain t where t: "fmul (Num p) (Num h) = Num t" "2 powi (- 300) \<le> t" "t \<le> 2 powi 300"
    using fmul_range [OF p(2,3) assms(5,6)] by auto
  obtain a where a: "fmul (Num (5522539043063071 / 2 ^ 48)) (Num h) = Num a"
      "2 powi (- 96) \<le> a" "a \<le> 2 powi 105"
    using fmul_range [OF two_g_bounds assms(5,6)] by auto
  have "2 powi (2 * (- 48)) \<le> a" "a \<le> 2 powi (2 * 53)"
  proof -
    show "2 powi (2 * (- 48)) \<le> a"
      using a(2) by simp
    have "(2::real) powi 105 \<le> 2 powi (2 * 53)"
      by (intro power_int_increasing) simp_all
    then show "a \<le> 2 powi (2 * 53)"
      using a(3) by linarith
  qed
  then obtain s where s: "fsqrt (Num a) = Num s" "2 powi (- 48) \<le> s" "s \<le> 2 powi 53"
    using fsqrt_range [of "- 48" a 53] by auto
  obtain q where q: "fmul (Num t) (Num s) = Num q" "2 powi (- 348) \<le> q" "q \<le> 2 powi 353"
    using fmul_range [OF t(2,3) s(2,3)] by auto
  show ?thesis
    unfolding broad_crested_weir_Q_f64_def two_g_f64 p(1) t(1) a(1) s(1) q(1)
    using q(2,3) by simp
qed






lemma rnd_1e_2: "rnd (1 / 100) = 5764607523034235 / 2 ^ 59"
proof -
  have "rnd (1 / 100) = of_int 5764607523034235 * 2 powi (- 7 - 52)"
    by (rule rnd_eqI) (simp_all add: power_int_def power_one_over)
  then show ?thesis
    by (simp add: power_int_def power_one_over)
qed

lemma fl_1e_2: "fl (1 / 100) = Num (5764607523034235 / 2 ^ 59)"
  by (subst fl_Num) (simp_all only: rnd_1e_2, simp_all add: max_f64_def)




section \<open>Evaluating double-precision operations\<close>

text \<open>
  An operation whose exact result \<open>x\<close> lies in the binade of exponent \<open>e\<close> returns the
  multiple \<open>n * 2^(e - 52)\<close> that lies within half a spacing of \<open>x\<close>; the lemmas
  below the two rules are instances, each checked by rational arithmetic.
\<close>

lemma fl_eqI:
  assumes "0 \<le> x" and "2 powi e \<le> x" and "x < 2 powi (e + 1)" and "- 1022 \<le> e" and "e \<le> 1022"
    and "of_int n - 1 / 2 < x / 2 powi (e - 52)" and "x / 2 powi (e - 52) < of_int n + 1 / 2"
  shows "fl x = Num (of_int n * 2 powi (e - 52))"
proof -
  have "rnd x = of_int n * 2 powi (e - 52)"
    using assms by (intro rnd_eqI) simp_all
  moreover have "rnd x \<le> 2 powi (e + 1)"
    using assms by (intro rnd_le_two_powi) simp_all
  moreover have "(2::real) powi (e + 1) \<le> 2 powi 1023"
    using assms(5) by (intro power_int_increasing) simp_all
  moreover have "0 \<le> rnd x"
    using assms(1) by (rule rnd_nonneg)
  ultimately show ?thesis
    using two_powi_1023_le_max by (subst fl_Num) simp_all
qed

lemma fl_sqrt_eqI:
  assumes "(2 powi e)\<^sup>2 \<le> x" and "x < (2 powi (e + 1))\<^sup>2" and "- 1022 \<le> e" and "e \<le> 1022"
    and "0 < n"
    and "((of_int n - 1 / 2) * 2 powi (e - 52))\<^sup>2 < x"
    and "x < ((of_int n + 1 / 2) * 2 powi (e - 52))\<^sup>2"
  shows "fl (sqrt x) = Num (of_int n * 2 powi (e - 52))"
proof (rule fl_eqI)
  have xpos: "0 < x"
    using assms(1) by (smt (verit) zero_less_power_int zero_less_power)
  show "0 \<le> sqrt x"
    using xpos by simp
  show "2 powi e \<le> sqrt x"
    using assms(1) by (intro real_le_rsqrt) simp
  show "sqrt x < 2 powi (e + 1)"
    using assms(2) by (intro real_less_lsqrt) simp_all
  show "- 1022 \<le> e" "e \<le> 1022"
    by fact+
  have q: "0 < (2::real) powi (e - 52)"
    by simp
  have n: "0 \<le> (real_of_int n - 1 / 2) * 2 powi (e - 52)" "0 \<le> (real_of_int n + 1 / 2) * 2 powi (e - 52)"
    using assms(5) by simp_all
  have "(real_of_int n - 1 / 2) * 2 powi (e - 52) < sqrt x"
    using assms(6) by (intro real_less_rsqrt) simp
  then show "real_of_int n - 1 / 2 < sqrt x / 2 powi (e - 52)"
    using q by (simp add: pos_less_divide_eq)
  have "sqrt x < (real_of_int n + 1 / 2) * 2 powi (e - 52)"
    using assms(7) n(2) by (intro real_less_lsqrt) simp_all
  then show "sqrt x / 2 powi (e - 52) < real_of_int n + 1 / 2"
    using q by (simp add: pos_divide_less_eq)
qed

lemma fl_0_4: "fl (2 / 5) = Num (3602879701896397 / 2 ^ 53)"
proof -
  have "fl (2 / 5) = Num (of_int 7205759403792794 * 2 powi (-2 - 52))"
    by (rule fl_eqI) (simp_all add: power_int_def power_one_over)
  then show ?thesis
    by (simp add: power_int_def power_one_over)
qed

lemma fl_0_1: "fl (1 / 10) = Num (3602879701896397 / 2 ^ 55)"
proof -
  have "fl (1 / 10) = Num (of_int 7205759403792794 * 2 powi (-4 - 52))"
    by (rule fl_eqI) (simp_all add: power_int_def power_one_over)
  then show ?thesis
    by (simp add: power_int_def power_one_over)
qed

lemma fl_0_45: "fl (9 / 20) = Num (8106479329266893 / 2 ^ 54)"
proof -
  have "fl (9 / 20) = Num (of_int 8106479329266893 * 2 powi (-2 - 52))"
    by (rule fl_eqI) (simp_all add: power_int_def power_one_over)
  then show ?thesis
    by (simp add: power_int_def power_one_over)
qed

lemma fl_0_45_next: "fl (45000000000000007 / 10 ^ 17) = Num (4053239664633447 / 2 ^ 53)"
proof -
  have "fl (45000000000000007 / 10 ^ 17) = Num (of_int 8106479329266894 * 2 powi (-2 - 52))"
    by (rule fl_eqI) (simp_all add: power_int_def power_one_over)
  then show ?thesis
    by (simp add: power_int_def power_one_over)
qed

lemma c5_Cd_b: "fmul (Num (3602879701896397 / 2 ^ 53)) (Num (3602879701896397 / 2 ^ 55)) = Num (1441151880758559 / 2 ^ 55)"
proof -
  have "fl ((3602879701896397 / 2 ^ 53) * (3602879701896397 / 2 ^ 55)) = Num (of_int 5764607523034236 * 2 powi (-5 - 52))"
    by (rule fl_eqI) (simp_all add: power_int_def power_one_over)
  then show ?thesis
    by (simp add: power_int_def power_one_over)
qed

lemma c5_t1: "fmul (Num (1441151880758559 / 2 ^ 55)) (Num (8106479329266893 / 2 ^ 54)) = Num (5188146770730813 / 2 ^ 58)"
proof -
  have "fl ((1441151880758559 / 2 ^ 55) * (8106479329266893 / 2 ^ 54)) = Num (of_int 5188146770730813 * 2 powi (-6 - 52))"
    by (rule fl_eqI) (simp_all add: power_int_def power_one_over)
  then show ?thesis
    by (simp add: power_int_def power_one_over)
qed

lemma c5_a1: "fmul (Num (5522539043063071 / 2 ^ 48)) (Num (8106479329266893 / 2 ^ 54)) = Num (1242571284689191 / 2 ^ 47)"
proof -
  have "fl ((5522539043063071 / 2 ^ 48) * (8106479329266893 / 2 ^ 54)) = Num (of_int 4970285138756764 * 2 powi (3 - 52))"
    by (rule fl_eqI) (simp_all add: power_int_def power_one_over)
  then show ?thesis
    by (simp add: power_int_def power_one_over)
qed

lemma c5_s1: "fsqrt (Num (1242571284689191 / 2 ^ 47)) = Num (3345457689078587 / 2 ^ 50)"
proof -
  have "fl (sqrt (1242571284689191 / 2 ^ 47)) = Num (of_int 6690915378157174 * 2 powi (1 - 52))"
    by (rule fl_sqrt_eqI) (simp_all add: power_int_def power_one_over power2_eq_square)
  then show ?thesis
    by (simp add: power_int_def power_one_over)
qed

lemma c5_q1: "fmul (Num (5188146770730813 / 2 ^ 58)) (Num (3345457689078587 / 2 ^ 50)) = Num (7707934515637067 / 2 ^ 57)"
proof -
  have "fl ((5188146770730813 / 2 ^ 58) * (3345457689078587 / 2 ^ 50)) = Num (of_int 7707934515637067 * 2 powi (-5 - 52))"
    by (rule fl_eqI) (simp_all add: power_int_def power_one_over)
  then show ?thesis
    by (simp add: power_int_def power_one_over)
qed

lemma c5_t2: "fmul (Num (1441151880758559 / 2 ^ 55)) (Num (4053239664633447 / 2 ^ 53)) = Num (5188146770730813 / 2 ^ 58)"
proof -
  have "fl ((1441151880758559 / 2 ^ 55) * (4053239664633447 / 2 ^ 53)) = Num (of_int 5188146770730813 * 2 powi (-6 - 52))"
    by (rule fl_eqI) (simp_all add: power_int_def power_one_over)
  then show ?thesis
    by (simp add: power_int_def power_one_over)
qed

lemma c5_a2: "fmul (Num (5522539043063071 / 2 ^ 48)) (Num (4053239664633447 / 2 ^ 53)) = Num (4970285138756765 / 2 ^ 49)"
proof -
  have "fl ((5522539043063071 / 2 ^ 48) * (4053239664633447 / 2 ^ 53)) = Num (of_int 4970285138756765 * 2 powi (3 - 52))"
    by (rule fl_eqI) (simp_all add: power_int_def power_one_over)
  then show ?thesis
    by (simp add: power_int_def power_one_over)
qed

lemma c5_s2: "fsqrt (Num (4970285138756765 / 2 ^ 49)) = Num (3345457689078587 / 2 ^ 50)"
proof -
  have "fl (sqrt (4970285138756765 / 2 ^ 49)) = Num (of_int 6690915378157174 * 2 powi (1 - 52))"
    by (rule fl_sqrt_eqI) (simp_all add: power_int_def power_one_over power2_eq_square)
  then show ?thesis
    by (simp add: power_int_def power_one_over)
qed

lemma c5_q2: "fmul (Num (5188146770730813 / 2 ^ 58)) (Num (3345457689078587 / 2 ^ 50)) = Num (7707934515637067 / 2 ^ 57)"
proof -
  have "fl ((5188146770730813 / 2 ^ 58) * (3345457689078587 / 2 ^ 50)) = Num (of_int 7707934515637067 * 2 powi (-5 - 52))"
    by (rule fl_eqI) (simp_all add: power_int_def power_one_over)
  then show ?thesis
    by (simp add: power_int_def power_one_over)
qed

section \<open>Monotonicity of the discharge in double precision\<close>

lemma fl_mono:
  assumes "0 \<le> x" and "x \<le> y"
  shows "fle (fl x) (fl y)"
proof -
  have r: "rnd x \<le> rnd y" "0 \<le> rnd x"
    using assms by (simp_all add: rnd_mono rnd_nonneg)
  then show ?thesis
    using max_f64_pos by (auto simp: fl_def Let_def)
qed

lemma fl_nonneg: "0 \<le> x \<Longrightarrow> fle (Num 0) (fl x)"
  using fl_mono [of 0 x] by simp

lemma fle_Num_0_cases:
  assumes "fle (Num 0) v"
  obtains x where "v = Num x" and "0 \<le> x" | "v = PosInf"
  using assms by (cases v) simp_all

lemma fle_PosInf_left [simp]: "fle PosInf v \<longleftrightarrow> v = PosInf"
  by (cases v) simp_all

lemma fle_PosInf_right [simp]: "fle v PosInf \<longleftrightarrow> v \<noteq> NaN"
  by (cases v) simp_all

lemma fmul_nonneg:
  assumes "fle (Num 0) a" and "fle (Num 0) s" and "fmul a s \<noteq> NaN"
  shows "fle (Num 0) (fmul a s)"
  using assms
  by (elim fle_Num_0_cases) (auto simp: fl_nonneg split: if_splits)

lemma fmul_mono:
  assumes "fle (Num 0) a1" and "fle a1 a2" and "fle (Num 0) s1" and "fle s1 s2"
    and "fmul a1 s1 \<noteq> NaN" and "fmul a2 s2 \<noteq> NaN"
  shows "fle (fmul a1 s1) (fmul a2 s2)"
proof -
  have a2: "fle (Num 0) a2" and s2: "fle (Num 0) s2"
    using assms(1-4) by (cases a1; cases a2; cases s1; cases s2; simp)+
  from assms(1) show ?thesis
  proof (cases rule: fle_Num_0_cases)
    case a1: (1 x1)
    from assms(3) show ?thesis
    proof (cases rule: fle_Num_0_cases)
      case s1: (1 y1)
      from a2 show ?thesis
      proof (cases rule: fle_Num_0_cases)
        case a2: (1 x2)
        from s2 show ?thesis
        proof (cases rule: fle_Num_0_cases)
          case s2: (1 y2)
          have "x1 * y1 \<le> x2 * y2"
            using assms(2,4) a1 s1 a2 s2 by (intro mult_mono) simp_all
          then show ?thesis
            using a1 s1 a2 s2 by (simp add: fl_mono)
        next
          case 2
          then show ?thesis
            using assms(6) a1 s1 a2 by (simp split: if_splits)
        qed
      next
        case 2
        then show ?thesis
          using assms(6) a1 s1 s2 by (cases s2) (simp_all split: if_splits)
      qed
    next
      case s1: 2
      then have "s2 = PosInf"
        using assms(4) by simp
      then show ?thesis
        using assms(5,6) a1 s1 a2 assms(2) by (cases a2) (simp_all split: if_splits)
    qed
  next
    case a1: 2
    then have "a2 = PosInf"
      using assms(2) by simp
    then show ?thesis
      using assms(3-6) a1 s2 by (cases s1; cases s2) (simp_all split: if_splits)
  qed
qed

lemma fsqrt_mono:
  assumes "fle (Num 0) a1" and "fle a1 a2"
  shows "fle (fsqrt a1) (fsqrt a2)" and "fle (Num 0) (fsqrt a1)"
proof -
  show "fle (fsqrt a1) (fsqrt a2)"
    using assms by (cases a1; cases a2) (simp_all add: fl_mono)
  show "fle (Num 0) (fsqrt a1)"
    using assms(1) by (cases a1) (simp_all add: fl_nonneg)
qed

lemma fle_trans_0: "fle (Num 0) a \<Longrightarrow> fle a b \<Longrightarrow> fle (Num 0) b"
  by (cases a; cases b) simp_all

lemma Q_f64_mono:
  assumes "0 \<le> Cd" and "0 \<le> b" and "0 < H1" and "H1 \<le> H2"
    and "broad_crested_weir_Q_f64 (Num b) (Num H1) (Num Cd) \<noteq> NaN"
    and "broad_crested_weir_Q_f64 (Num b) (Num H2) (Num Cd) \<noteq> NaN"
  shows "fle (broad_crested_weir_Q_f64 (Num b) (Num H1) (Num Cd))
             (broad_crested_weir_Q_f64 (Num b) (Num H2) (Num Cd))"
proof -
  define P where "P = fmul (Num Cd) (Num b)"
  define G where "G = fmul (Num 2) g_f64"
  have P: "fle (Num 0) P"
    unfolding P_def using assms(1,2) by (simp add: fl_nonneg)
  have G: "fle (Num 0) G" "fle G G"
    unfolding G_def two_g_f64 by simp_all
  have H: "fle (Num 0) (Num H1)" "fle (Num H1) (Num H2)"
    using assms(3,4) by simp_all
  have PH: "fmul P (Num H1) \<noteq> NaN" "fmul P (Num H2) \<noteq> NaN"
    using P assms(3,4) by (cases P; simp)+
  have A: "fle (fmul P (Num H1)) (fmul P (Num H2))" "fle (Num 0) (fmul P (Num H1))"
  proof -
    have "fle P P"
      using P by (cases P) simp_all
    then show "fle (fmul P (Num H1)) (fmul P (Num H2))"
      using P H PH by (intro fmul_mono)
    show "fle (Num 0) (fmul P (Num H1))"
      using P H(1) PH(1) by (rule fmul_nonneg)
  qed
  have GH: "fmul G (Num H1) \<noteq> NaN" "fmul G (Num H2) \<noteq> NaN"
    unfolding G_def two_g_f64 by simp_all
  have R: "fle (fmul G (Num H1)) (fmul G (Num H2))" "fle (Num 0) (fmul G (Num H1))"
    using G H GH by (auto intro: fmul_mono fmul_nonneg)
  have S: "fle (fsqrt (fmul G (Num H1))) (fsqrt (fmul G (Num H2)))"
    "fle (Num 0) (fsqrt (fmul G (Num H1)))"
    using R by (auto intro: fsqrt_mono)
  have Q: "broad_crested_weir_Q_f64 (Num b) (Num h) (Num Cd) =
      fmul (fmul P (Num h)) (fsqrt (fmul G (Num h)))" for h
    by (simp only: broad_crested_weir_Q_f64_def P_def G_def)
  have "fmul (fmul P (Num H1)) (fsqrt (fmul G (Num H1))) \<noteq> NaN"
    and "fmul (fmul P (Num H2)) (fsqrt (fmul G (Num H2))) \<noteq> NaN"
    using assms(5,6) unfolding Q by blast+
  then show ?thesis
    unfolding Q by (rule fmul_mono [OF A(2) A(1) S(2) S(1)])
qed

text \<open>
  Claim C5, as amended. For fixed finite \<open>Cd > 0\<close> and \<open>b > 0\<close> and finite heads
  \<open>0 < H1 < H2\<close>: the formula evaluated exactly is strictly increasing in the head, and
  the doubles the function returns are non-decreasing, that is, whenever neither result
  is NaN the result for \<open>H1\<close> is at most the result for \<open>H2\<close>.
\<close>

theorem discharge_nondecreasing_f64:
  assumes "0 < Cd" and "0 < b" and "0 < H1" and "H1 < H2"
  shows "(\<exists>Q1 Q2. broad_crested_weir_Q b H1 Cd = Some Q1 \<and>
                  broad_crested_weir_Q b H2 Cd = Some Q2 \<and> Q1 < Q2) \<and>
         (broad_crested_weir_Q_f64 (Num b) (Num H1) (Num Cd) \<noteq> NaN \<longrightarrow>
          broad_crested_weir_Q_f64 (Num b) (Num H2) (Num Cd) \<noteq> NaN \<longrightarrow>
          fle (broad_crested_weir_Q_f64 (Num b) (Num H1) (Num Cd))
              (broad_crested_weir_Q_f64 (Num b) (Num H2) (Num Cd)))"
  using Q_strictly_increasing_exact [OF assms] Q_f64_mono [of Cd b H1 H2] assms by simp

theorem discharge_nondecreasing_f64_witness:
  "(0::real) < 1 / 2 \<and> (0::real) < 1 \<and> (0::real) < 1 \<and> (1::real) < 4 \<and>
   (\<exists>Q1 Q2. broad_crested_weir_Q 1 1 (1 / 2) = Some Q1 \<and>
            broad_crested_weir_Q 1 4 (1 / 2) = Some Q2 \<and> Q1 < Q2) \<and>
   broad_crested_weir_Q_f64 (Num 1) (Num 1) (Num (1 / 2)) \<noteq> NaN \<and>
   broad_crested_weir_Q_f64 (Num 1) (Num 4) (Num (1 / 2)) \<noteq> NaN \<and>
   fle (broad_crested_weir_Q_f64 (Num 1) (Num 1) (Num (1 / 2)))
       (broad_crested_weir_Q_f64 (Num 1) (Num 4) (Num (1 / 2)))"
proof -
  have r: "2 powi (- 100) \<le> (1 / 2 :: real)" "(1 / 2 :: real) \<le> 2 powi 100"
    "2 powi (- 100) \<le> (1 :: real)" "(1 :: real) \<le> 2 powi 100"
    "2 powi (- 100) \<le> (4 :: real)" "(4 :: real) \<le> 2 powi 100"
    by (simp_all add: power_int_def power_one_over)
  have "broad_crested_weir_Q_f64 (Num 1) (Num 1) (Num (1 / 2)) \<noteq> NaN"
    using Q_f64_in_range [OF r(1,2) r(3,4) r(3,4)] by auto
  moreover have "broad_crested_weir_Q_f64 (Num 1) (Num 4) (Num (1 / 2)) \<noteq> NaN"
    using Q_f64_in_range [OF r(1,2) r(3,4) r(5,6)] by auto
  ultimately show ?thesis
    using discharge_nondecreasing_f64 [of "1 / 2" 1 1 4] by simp
qed

text \<open>
  The claim as first stated wants the returned values strictly increasing. In double
  precision \<open>Cd = 0.4\<close>, \<open>b = 0.1\<close> and the neighbouring heads \<open>0.45\<close> and
  \<open>0.45000000000000007\<close> give one and the same discharge, \<open>0.05348453982227016\<close>.
\<close>

theorem discharge_equal_at_neighbouring_heads:
  "flt (Num 0) (fl (2 / 5)) \<and> flt (Num 0) (fl (1 / 10)) \<and> flt (Num 0) (fl (9 / 20)) \<and>
   flt (fl (9 / 20)) (fl (45000000000000007 / 10 ^ 17)) \<and>
   broad_crested_weir_Q_f64 (fl (1 / 10)) (fl (9 / 20)) (fl (2 / 5)) =
     Num (7707934515637067 / 2 ^ 57) \<and>
   broad_crested_weir_Q_f64 (fl (1 / 10)) (fl (45000000000000007 / 10 ^ 17)) (fl (2 / 5)) =
     Num (7707934515637067 / 2 ^ 57) \<and>
   \<not> flt (broad_crested_weir_Q_f64 (fl (1 / 10)) (fl (9 / 20)) (fl (2 / 5)))
         (broad_crested_weir_Q_f64 (fl (1 / 10)) (fl (45000000000000007 / 10 ^ 17)) (fl (2 / 5)))"
proof -
  have q1: "broad_crested_weir_Q_f64 (fl (1 / 10)) (fl (9 / 20)) (fl (2 / 5)) =
      Num (7707934515637067 / 2 ^ 57)"
    by (simp only: broad_crested_weir_Q_f64_def two_g_f64 fl_0_1 fl_0_45 fl_0_4
        c5_Cd_b c5_t1 c5_a1 c5_s1 c5_q1)
  have q2: "broad_crested_weir_Q_f64 (fl (1 / 10)) (fl (45000000000000007 / 10 ^ 17)) (fl (2 / 5)) =
      Num (7707934515637067 / 2 ^ 57)"
    by (simp only: broad_crested_weir_Q_f64_def two_g_f64 fl_0_1 fl_0_45_next fl_0_4
        c5_Cd_b c5_t2 c5_a2 c5_s2 c5_q2)
  have pos: "flt (Num 0) (fl (2 / 5))" "flt (Num 0) (fl (1 / 10))" "flt (Num 0) (fl (9 / 20))"
    "flt (fl (9 / 20)) (fl (45000000000000007 / 10 ^ 17))"
    unfolding fl_0_4 fl_0_1 fl_0_45 fl_0_45_next by simp_all
  show ?thesis
    using pos unfolding q1 q2 by simp
qed

section \<open>Scaling the discharge in double precision\<close>

lemma normal_of_bound:
  fixes x :: real
  assumes "2 powi lo \<le> x" and "- 1022 \<le> lo"
  shows "2 powi (- 1022) \<le> \<bar>x\<bar>"
proof -
  have "(2::real) powi (- 1022) \<le> 2 powi lo"
    using assms(2) by (intro power_int_increasing) simp_all
  then show ?thesis
    using assms(1) by linarith
qed

lemma fl_in_range:
  assumes "- 1074 \<le> lo" and "hi \<le> 1023" and "2 powi lo \<le> x" and "x \<le> 2 powi hi"
  shows "fl x = Num (rnd x)" and "2 powi lo \<le> rnd x" and "rnd x \<le> 2 powi hi"
proof -
  obtain r where r: "fl x = Num r" "2 powi lo \<le> r" "r \<le> 2 powi hi"
    using fl_range [OF assms] by blast
  then have "r = rnd x"
    by (auto dest: fl_Num_D)
  with r show "fl x = Num (rnd x)" and "2 powi lo \<le> rnd x" and "rnd x \<le> 2 powi hi"
    by simp_all
qed

text \<open>The discharge written out as nested roundings, for inputs far from overflow and underflow.\<close>

lemma Q_f64_eq_rnd:
  assumes "2 powi (- 101) \<le> c" "c \<le> 2 powi 101" "2 powi (- 101) \<le> d" "d \<le> 2 powi 101"
    "2 powi (- 100) \<le> h" "h \<le> 2 powi 100"
  defines "s \<equiv> rnd (sqrt (rnd (5522539043063071 / 2 ^ 48 * h)))"
  shows "broad_crested_weir_Q_f64 (Num d) (Num h) (Num c) = Num (rnd (rnd (rnd (c * d) * h) * s))"
    and "2 powi (- 101 + - 101) \<le> c * d"
    and "2 powi (- 101 + - 101 + - 100) \<le> rnd (c * d) * h"
    and "2 powi (- 101 + - 101 + - 100 + - 48) \<le> rnd (rnd (c * d) * h) * s"
    and "2 powi (- 101 + - 101 + - 100 + - 48) \<le> rnd (rnd (rnd (c * d) * h) * s)"
    and "rnd (rnd (rnd (c * d) * h) * s) \<le> 2 powi (101 + 101 + 100 + 53)"
proof -
  define p where "p = rnd (c * d)"
  define t where "t = rnd (p * h)"
  define a where "a = rnd (5522539043063071 / 2 ^ 48 * h)"
  have s: "s = rnd (sqrt a)"
    by (simp only: s_def a_def)
  have cd: "2 powi (- 101 + - 101) \<le> c * d" "c * d \<le> 2 powi (101 + 101)"
    by (rule two_powi_mult_bounds [OF assms(1-4)])+
  have n1: "- 1074 \<le> (- 101 + - 101 :: int)" "(101 + 101 :: int) \<le> 1023"
    by simp_all
  note p = fl_in_range [OF n1 cd, folded p_def]
  have ph: "2 powi (- 101 + - 101 + - 100) \<le> p * h" "p * h \<le> 2 powi (101 + 101 + 100)"
    by (rule two_powi_mult_bounds [OF p(2,3) assms(5,6)])+
  have n2: "- 1074 \<le> (- 101 + - 101 + - 100 :: int)" "(101 + 101 + 100 :: int) \<le> 1023"
    by simp_all
  note t = fl_in_range [OF n2 ph, folded t_def]
  have gh: "2 powi (4 + - 100) \<le> 5522539043063071 / 2 ^ 48 * h"
    "5522539043063071 / 2 ^ 48 * h \<le> 2 powi (5 + 100)"
    by (rule two_powi_mult_bounds [OF two_g_bounds assms(5,6)])+
  have n3: "- 1074 \<le> (4 + - 100 :: int)" "(5 + 100 :: int) \<le> 1023"
    by simp_all
  note a = fl_in_range [OF n3 gh, folded a_def]
  have a': "2 powi (2 * (- 48)) \<le> a" "a \<le> 2 powi (2 * 53)"
  proof -
    have "(2::real) powi (2 * (- 48)) \<le> 2 powi (4 + - 100)"
      by (intro power_int_increasing) simp_all
    then show "2 powi (2 * (- 48)) \<le> a"
      using a(2) by linarith
    have "(2::real) powi (5 + 100) \<le> 2 powi (2 * 53)"
      by (intro power_int_increasing) simp_all
    then show "a \<le> 2 powi (2 * 53)"
      using a(3) by linarith
  qed
  have apos: "\<not> a < 0"
    using two_powi_le_pos [OF a(2)] by simp
  have sq: "2 powi (- 48) \<le> sqrt a" "sqrt a \<le> 2 powi 53"
    using real_sqrt_le_mono [OF a'(1)] real_sqrt_le_mono [OF a'(2)]
    by (simp_all only: sqrt_two_powi)
  have n4: "- 1074 \<le> (- 48 :: int)" "(53 :: int) \<le> 1023"
    by simp_all
  note s' = fl_in_range [OF n4 sq, folded s]
  have ts: "2 powi (- 101 + - 101 + - 100 + - 48) \<le> t * s" "t * s \<le> 2 powi (101 + 101 + 100 + 53)"
    by (rule two_powi_mult_bounds [OF t(2,3) s'(2,3)])+
  have n5: "- 1074 \<le> (- 101 + - 101 + - 100 + - 48 :: int)" "(101 + 101 + 100 + 53 :: int) \<le> 1023"
    by simp_all
  note q = fl_in_range [OF n5 ts]
  have "fsqrt (Num a) = Num s"
    using apos s'(1) by (simp only: fsqrt.simps if_False)
  then show "broad_crested_weir_Q_f64 (Num d) (Num h) (Num c) = Num (rnd (rnd (rnd (c * d) * h) * s))"
    by (simp only: broad_crested_weir_Q_f64_def two_g_f64 fmul.simps p(1) t(1) a(1) q(1))
      (simp only: t_def p_def)
  show "2 powi (- 101 + - 101) \<le> c * d"
    by (rule cd(1))
  show "2 powi (- 101 + - 101 + - 100) \<le> rnd (c * d) * h"
    using ph(1) by (simp only: p_def)
  show "2 powi (- 101 + - 101 + - 100 + - 48) \<le> rnd (rnd (c * d) * h) * s"
    using ts(1) by (simp only: t_def p_def)
  show "2 powi (- 101 + - 101 + - 100 + - 48) \<le> rnd (rnd (rnd (c * d) * h) * s)"
    using q(2) by (simp only: t_def p_def)
  show "rnd (rnd (rnd (c * d) * h) * s) \<le> 2 powi (101 + 101 + 100 + 53)"
    using q(3) by (simp only: t_def p_def)
qed

lemma range_widen:
  fixes x :: real
  assumes "2 powi (- 100) \<le> x" and "x \<le> 2 powi 100"
  shows "2 powi (- 101) \<le> x" and "x \<le> 2 powi 101"
    and "2 powi (- 101) \<le> 2 * x" and "2 * x \<le> 2 powi 101"
proof -
  have "(2::real) powi (- 101) \<le> 2 powi (- 100)" "(2::real) powi 100 \<le> 2 powi 101"
    by (intro power_int_increasing; simp)+
  then show "2 powi (- 101) \<le> x" and "x \<le> 2 powi 101"
    using assms by linarith+
  have "(2::real) powi 101 = 2 * 2 powi 100" "(2::real) powi (- 100) = 2 * 2 powi (- 101)"
    by (simp_all add: power_int_def power_one_over)
  then show "2 powi (- 101) \<le> 2 * x" and "2 * x \<le> 2 powi 101"
    using assms two_powi_le_pos [OF assms(1)] by linarith+
qed

lemma fmul_2_double:
  assumes "rnd x = x" and "2 powi (- 100) \<le> x" and "x \<le> 2 powi 100"
  shows "fmul (Num 2) (Num x) = Num (2 * x)"
proof -
  have n: "- 1074 \<le> (- 101 :: int)" "(101 :: int) \<le> 1023"
    by simp_all
  have "fl (2 * x) = Num (rnd (2 * x))"
    by (rule fl_in_range(1) [OF n range_widen(3,4) [OF assms(2,3)]])
  moreover have "rnd (2 * x) = 2 * rnd x"
    using assms(2) by (intro rnd_times_2 normal_of_bound [of "- 100"]) simp_all
  ultimately show ?thesis
    using assms(1) by simp
qed

lemma Q_f64_doubled:
  assumes "2 powi (- 101) \<le> c" "c \<le> 2 powi 101" "2 powi (- 101) \<le> d" "d \<le> 2 powi 101"
    "2 powi (- 100) \<le> h" "h \<le> 2 powi 100"
    and "2 powi (- 101) \<le> c'" "c' \<le> 2 powi 101" "2 powi (- 101) \<le> d'" "d' \<le> 2 powi 101"
    and "c' * d' = 2 * (c * d)"
  shows "broad_crested_weir_Q_f64 (Num d') (Num h) (Num c') =
         fmul (Num 2) (broad_crested_weir_Q_f64 (Num d) (Num h) (Num c))"
proof -
  define s where "s = rnd (sqrt (rnd (5522539043063071 / 2 ^ 48 * h)))"
  define q where "q = rnd (rnd (rnd (c * d) * h) * s)"
  note Q = Q_f64_eq_rnd [OF assms(1-6), folded s_def]
  note Q' = Q_f64_eq_rnd [OF assms(7-10) assms(5,6), folded s_def]
  have k: "- 1022 \<le> (- 101 + - 101 :: int)" "- 1022 \<le> (- 101 + - 101 + - 100 :: int)"
    "- 1022 \<le> (- 101 + - 101 + - 100 + - 48 :: int)"
    by simp_all
  have "rnd (c' * d') = 2 * rnd (c * d)"
    unfolding assms(11) by (rule rnd_times_2 [OF normal_of_bound [OF Q(2) k(1)]])
  moreover have "rnd (2 * rnd (c * d) * h) = 2 * rnd (rnd (c * d) * h)"
    using rnd_times_2 [OF normal_of_bound [OF Q(3) k(2)]] by (simp add: mult.assoc)
  moreover have "rnd (2 * rnd (rnd (c * d) * h) * s) = 2 * rnd (rnd (rnd (c * d) * h) * s)"
    using rnd_times_2 [OF normal_of_bound [OF Q(4) k(3)]] by (simp add: mult.assoc)
  ultimately have lhs: "broad_crested_weir_Q_f64 (Num d') (Num h) (Num c') = Num (2 * q)"
    unfolding Q'(1) q_def by simp
  have n: "- 1074 \<le> (1 + (- 101 + - 101 + - 100 + - 48) :: int)"
    "(1 + (101 + 101 + 100 + 53) :: int) \<le> 1023"
    by simp_all
  have two: "2 powi 1 \<le> (2::real)" "(2::real) \<le> 2 powi 1"
    by simp_all
  have "2 powi (1 + (- 101 + - 101 + - 100 + - 48)) \<le> 2 * q"
    "2 * q \<le> 2 powi (1 + (101 + 101 + 100 + 53))"
    by (rule two_powi_mult_bounds [OF two Q(5,6) [folded q_def]])+
  then have "fl (2 * q) = Num (rnd (2 * q))"
    by (rule fl_in_range(1) [OF n])
  moreover have "rnd (2 * q) = 2 * rnd q"
    by (rule rnd_times_2 [OF normal_of_bound [OF Q(5) [folded q_def] k(3)]])
  moreover have "rnd q = q"
    unfolding q_def by (rule rnd_idem)
  ultimately have "fmul (Num 2) (Num q) = Num (2 * q)"
    by simp
  then show ?thesis
    unfolding lhs Q(1) q_def [symmetric] by simp
qed

lemma rnd_half: "rnd (1 / 2) = 1 / 2"
  using rnd_two_powi [of "- 1"] by simp

lemma rnd_two: "rnd 2 = 2"
  using rnd_two_powi [of 1] by simp

lemma fl_0_6: "fl (3 / 5) = Num (5404319552844595 / 2 ^ 53)"
proof -
  have "fl (3 / 5) = Num (of_int 5404319552844595 * 2 powi (-1 - 52))"
    by (rule fl_eqI) (simp_all add: power_int_def power_one_over)
  then show ?thesis
    by (simp add: power_int_def power_one_over)
qed

lemma c6_kCd: "fmul (Num (3602879701896397 / 2 ^ 55)) (Num (1 / 2)) = Num (3602879701896397 / 2 ^ 56)"
proof -
  have "fl ((3602879701896397 / 2 ^ 55) * (1 / 2)) = Num (of_int 7205759403792794 * 2 powi (-5 - 52))"
    by (rule fl_eqI) (simp_all add: power_int_def power_one_over)
  then show ?thesis
    by (simp add: power_int_def power_one_over)
qed

lemma c6_l1: "fmul (Num (3602879701896397 / 2 ^ 56)) (Num 2) = Num (3602879701896397 / 2 ^ 55)"
proof -
  have "fl ((3602879701896397 / 2 ^ 56) * 2) = Num (of_int 7205759403792794 * 2 powi (-4 - 52))"
    by (rule fl_eqI) (simp_all add: power_int_def power_one_over)
  then show ?thesis
    by (simp add: power_int_def power_one_over)
qed

lemma c6_l2: "fmul (Num (3602879701896397 / 2 ^ 55)) (Num (5404319552844595 / 2 ^ 53)) = Num (1080863910568919 / 2 ^ 54)"
proof -
  have "fl ((3602879701896397 / 2 ^ 55) * (5404319552844595 / 2 ^ 53)) = Num (of_int 8646911284551352 * 2 powi (-5 - 52))"
    by (rule fl_eqI) (simp_all add: power_int_def power_one_over)
  then show ?thesis
    by (simp add: power_int_def power_one_over)
qed

lemma c6_a: "fmul (Num (5522539043063071 / 2 ^ 48)) (Num (5404319552844595 / 2 ^ 53)) = Num (6627046851675685 / 2 ^ 49)"
proof -
  have "fl ((5522539043063071 / 2 ^ 48) * (5404319552844595 / 2 ^ 53)) = Num (of_int 6627046851675685 * 2 powi (3 - 52))"
    by (rule fl_eqI) (simp_all add: power_int_def power_one_over)
  then show ?thesis
    by (simp add: power_int_def power_one_over)
qed

lemma c6_s: "fsqrt (Num (6627046851675685 / 2 ^ 49)) = Num (7726003589408101 / 2 ^ 51)"
proof -
  have "fl (sqrt (6627046851675685 / 2 ^ 49)) = Num (of_int 7726003589408101 * 2 powi (1 - 52))"
    by (rule fl_sqrt_eqI) (simp_all add: power_int_def power_one_over power2_eq_square)
  then show ?thesis
    by (simp add: power_int_def power_one_over)
qed

lemma c6_ql: "fmul (Num (1080863910568919 / 2 ^ 54)) (Num (7726003589408101 / 2 ^ 51)) = Num (7416963445831777 / 2 ^ 55)"
proof -
  have "fl ((1080863910568919 / 2 ^ 54) * (7726003589408101 / 2 ^ 51)) = Num (of_int 7416963445831777 * 2 powi (-3 - 52))"
    by (rule fl_eqI) (simp_all add: power_int_def power_one_over)
  then show ?thesis
    by (simp add: power_int_def power_one_over)
qed

lemma c6_r1: "fmul (Num (1 / 2)) (Num 2) = Num (1)"
proof -
  have "fl ((1 / 2) * 2) = Num (of_int 4503599627370496 * 2 powi (0 - 52))"
    by (rule fl_eqI) (simp_all add: power_int_def power_one_over)
  then show ?thesis
    by (simp add: power_int_def power_one_over)
qed

lemma c6_r2: "fmul (Num 1) (Num (5404319552844595 / 2 ^ 53)) = Num (5404319552844595 / 2 ^ 53)"
proof -
  have "fl (1 * (5404319552844595 / 2 ^ 53)) = Num (of_int 5404319552844595 * 2 powi (-1 - 52))"
    by (rule fl_eqI) (simp_all add: power_int_def power_one_over)
  then show ?thesis
    by (simp add: power_int_def power_one_over)
qed

lemma c6_qr: "fmul (Num (5404319552844595 / 2 ^ 53)) (Num (7726003589408101 / 2 ^ 51)) = Num (1158900538411215 / 2 ^ 49)"
proof -
  have "fl ((5404319552844595 / 2 ^ 53) * (7726003589408101 / 2 ^ 51)) = Num (of_int 4635602153644860 * 2 powi (1 - 52))"
    by (rule fl_eqI) (simp_all add: power_int_def power_one_over)
  then show ?thesis
    by (simp add: power_int_def power_one_over)
qed

lemma c6_kq: "fmul (Num (3602879701896397 / 2 ^ 55)) (Num (1158900538411215 / 2 ^ 49)) = Num (231780107682243 / 2 ^ 50)"
proof -
  have "fl ((3602879701896397 / 2 ^ 55) * (1158900538411215 / 2 ^ 49)) = Num (of_int 7416963445831776 * 2 powi (-3 - 52))"
    by (rule fl_eqI) (simp_all add: power_int_def power_one_over)
  then show ?thesis
    by (simp add: power_int_def power_one_over)
qed

text \<open>
  Claim C6, as amended. Doubling \<open>Cd\<close>, or doubling \<open>b\<close>, doubles the returned double
  exactly, whenever \<open>Cd\<close> and \<open>b\<close> are doubles and \<open>Cd\<close>, \<open>b\<close> and \<open>H\<close> lie between
  \<open>2^(- 100)\<close> and \<open>2^100\<close>, where the result is a positive number. For an arbitrary
  factor \<open>k\<close> the discharge is linear in \<open>Cd\<close> and in \<open>b\<close> as a formula, evaluated
  exactly.
\<close>

theorem discharge_doubling_f64:
  assumes "rnd Cd = Cd" and "rnd b = b"
    and "2 powi (- 100) \<le> Cd" and "Cd \<le> 2 powi 100"
    and "2 powi (- 100) \<le> b" and "b \<le> 2 powi 100"
    and "2 powi (- 100) \<le> H" and "H \<le> 2 powi 100"
  shows "broad_crested_weir_Q_f64 (Num b) (Num H) (fmul (Num 2) (Num Cd)) =
           fmul (Num 2) (broad_crested_weir_Q_f64 (Num b) (Num H) (Num Cd)) \<and>
         broad_crested_weir_Q_f64 (fmul (Num 2) (Num b)) (Num H) (Num Cd) =
           fmul (Num 2) (broad_crested_weir_Q_f64 (Num b) (Num H) (Num Cd)) \<and>
         (\<exists>Q. 0 < Q \<and> broad_crested_weir_Q_f64 (Num b) (Num H) (Num Cd) = Num Q) \<and>
         broad_crested_weir_Q b H (k * Cd) =
           map_option (\<lambda>Q. k * Q) (broad_crested_weir_Q b H Cd) \<and>
         broad_crested_weir_Q (k * b) H Cd =
           map_option (\<lambda>Q. k * Q) (broad_crested_weir_Q b H Cd)"
proof -
  note c = range_widen [OF assms(3,4)]
  note d = range_widen [OF assms(5,6)]
  have "broad_crested_weir_Q_f64 (Num b) (Num H) (Num (2 * Cd)) =
      fmul (Num 2) (broad_crested_weir_Q_f64 (Num b) (Num H) (Num Cd))"
    by (rule Q_f64_doubled [OF c(1,2) d(1,2) assms(7,8) c(3,4) d(1,2)]) simp
  moreover have "broad_crested_weir_Q_f64 (Num (2 * b)) (Num H) (Num Cd) =
      fmul (Num 2) (broad_crested_weir_Q_f64 (Num b) (Num H) (Num Cd))"
    by (rule Q_f64_doubled [OF c(1,2) d(1,2) assms(7,8) c(1,2) d(3,4)]) simp
  moreover have "\<exists>Q. 0 < Q \<and> broad_crested_weir_Q_f64 (Num b) (Num H) (Num Cd) = Num Q"
    using Q_f64_in_range [OF assms(3-8)] two_powi_le_pos by blast
  ultimately show ?thesis
    using Q_linear_exact [of b H k Cd]
    unfolding fmul_2_double [OF assms(1,3,4)] fmul_2_double [OF assms(2,5,6)] by blast
qed

theorem discharge_doubling_f64_witness:
  "rnd (1 / 2) = 1 / 2 \<and> rnd 2 = 2 \<and>
   2 powi (- 100) \<le> (1 / 2 :: real) \<and> (1 / 2 :: real) \<le> 2 powi 100 \<and>
   2 powi (- 100) \<le> (2 :: real) \<and> (2 :: real) \<le> 2 powi 100 \<and>
   2 powi (- 100) \<le> (5404319552844595 / 2 ^ 53 :: real) \<and>
   (5404319552844595 / 2 ^ 53 :: real) \<le> 2 powi 100 \<and>
   broad_crested_weir_Q_f64 (Num 2) (Num (5404319552844595 / 2 ^ 53)) (fmul (Num 2) (Num (1 / 2))) =
     fmul (Num 2) (broad_crested_weir_Q_f64 (Num 2) (Num (5404319552844595 / 2 ^ 53)) (Num (1 / 2))) \<and>
   broad_crested_weir_Q_f64 (fmul (Num 2) (Num 2)) (Num (5404319552844595 / 2 ^ 53)) (Num (1 / 2)) =
     fmul (Num 2) (broad_crested_weir_Q_f64 (Num 2) (Num (5404319552844595 / 2 ^ 53)) (Num (1 / 2))) \<and>
   broad_crested_weir_Q 2 (3 / 5) (3 * (1 / 2)) =
     map_option (\<lambda>Q. 3 * Q) (broad_crested_weir_Q 2 (3 / 5) (1 / 2))"
proof -
  have r: "2 powi (- 100) \<le> (1 / 2 :: real)" "(1 / 2 :: real) \<le> 2 powi 100"
    "2 powi (- 100) \<le> (2 :: real)" "(2 :: real) \<le> 2 powi 100"
    "2 powi (- 100) \<le> (5404319552844595 / 2 ^ 53 :: real)"
    "(5404319552844595 / 2 ^ 53 :: real) \<le> 2 powi 100"
    by (simp_all add: power_int_def power_one_over)
  note a = discharge_doubling_f64 [OF rnd_half rnd_two r, of 3]
  have "broad_crested_weir_Q 2 (3 / 5) (3 * (1 / 2)) =
      map_option (\<lambda>Q. 3 * Q) (broad_crested_weir_Q 2 (3 / 5) (1 / 2))"
    using Q_linear_exact [of 2 "3 / 5" 3 "1 / 2"] by blast
  with a show ?thesis
    using rnd_half rnd_two r by blast
qed

text \<open>
  The claim as first stated wants exact linearity of the returned values for every
  factor. In double precision, with \<open>b = 2\<close>, \<open>H = 0.6\<close>, \<open>Cd = 0.5\<close> and \<open>k = 0.1\<close>, the
  discharge for \<open>k * Cd\<close> is \<open>0.20586208975913947\<close> and \<open>k\<close> times the discharge for
  \<open>Cd\<close> is \<open>0.20586208975913944\<close>.
\<close>

theorem discharge_not_linear_for_tenth:
  "broad_crested_weir_Q_f64 (Num 2) (fl (3 / 5)) (fmul (fl (1 / 10)) (Num (1 / 2))) =
     Num (7416963445831777 / 2 ^ 55) \<and>
   fmul (fl (1 / 10)) (broad_crested_weir_Q_f64 (Num 2) (fl (3 / 5)) (Num (1 / 2))) =
     Num (231780107682243 / 2 ^ 50) \<and>
   (7416963445831777 / 2 ^ 55 :: real) \<noteq> 231780107682243 / 2 ^ 50"
proof -
  have l: "broad_crested_weir_Q_f64 (Num 2) (fl (3 / 5)) (fmul (fl (1 / 10)) (Num (1 / 2))) =
      Num (7416963445831777 / 2 ^ 55)"
    by (simp only: broad_crested_weir_Q_f64_def two_g_f64 fl_0_1 fl_0_6
        c6_kCd c6_l1 c6_l2 c6_a c6_s c6_ql)
  have r: "fmul (fl (1 / 10)) (broad_crested_weir_Q_f64 (Num 2) (fl (3 / 5)) (Num (1 / 2))) =
      Num (231780107682243 / 2 ^ 50)"
    by (simp only: broad_crested_weir_Q_f64_def two_g_f64 fl_0_1 fl_0_6
        c6_r1 c6_r2 c6_a c6_s c6_qr c6_kq)
  show ?thesis
    unfolding l r by simp
qed

section \<open>The sampling grid in double precision\<close>

text \<open>
  The error of one rounding, for a number in the normal range, is at most \<open>2^(- 53)\<close> of
  it. The head of index \<open>i < 299\<close> is \<open>fl (fl (i * step) + 0.01)\<close> with
  \<open>step = fl (fl (H_max - 0.01) / 299)\<close>, so two neighbours are at least
  \<open>step * (1 - 1190 * 2^(- 53)) - 0.01 * 2^(- 52)\<close> apart: they differ as soon as the step
  is about twice \<open>2^(- 59)\<close>, the spacing of the doubles near 0.01.
\<close>

lemma rnd_rel_bounds:
  assumes "x = 0 \<or> 2 powi (- 1022) \<le> x"
  shows "x * (1 - 1 / 2 ^ 53) \<le> rnd x" and "rnd x \<le> x * (1 + 1 / 2 ^ 53)"
proof -
  have "\<bar>rnd x - x\<bar> \<le> 1 / 2 ^ 53 * x \<and> 0 \<le> x"
  proof (cases "x = 0")
    case True
    then show ?thesis by simp
  next
    case False
    then have n: "2 powi (- 1022) \<le> x"
      using assms by simp
    then have pos: "0 < x"
      by (rule two_powi_le_pos)
    then have "2 powi (- 1022) \<le> \<bar>x\<bar>"
      using n by simp
    then have "\<bar>rnd x - x\<bar> \<le> 2 powi (- 53) * \<bar>x\<bar>"
      by (rule rnd_rel_error)
    moreover have "(2::real) powi (- 53) = 1 / 2 ^ 53"
      by (simp add: power_int_def power_one_over)
    ultimately show ?thesis
      using pos by simp
  qed
  then have "rnd x - x \<le> 1 / 2 ^ 53 * x" and "- (rnd x - x) \<le> 1 / 2 ^ 53 * x"
    by (simp_all only: abs_le_iff)
  then show "x * (1 - 1 / 2 ^ 53) \<le> rnd x" and "rnd x \<le> x * (1 + 1 / 2 ^ 53)"
    by (simp_all only: algebra_simps)
qed

lemma grid_step_ineq:
  fixes X st a u :: real
  assumes "0 \<le> X" and "X \<le> 297 * st" and "0 < a" and "a \<le> 1 / 100 + 1 / 10 ^ 18"
    and "33 / 10 ^ 19 \<le> st" and u: "u = 1 / 2 ^ 53"
  shows "(X * (1 + u) + a) * (1 + u) < ((X + st) * (1 - u) + a) * (1 - u)"
proof -
  have diff: "((X + st) * (1 - u) + a) * (1 - u) - (X * (1 + u) + a) * (1 + u)
      = st * (1 - u)\<^sup>2 - 4 * u * X - 2 * u * a"
    by (simp add: algebra_simps power2_eq_square)
  have upos: "0 < u"
    by (simp add: u)
  have stpos: "0 < st"
    using assms(5) by simp
  have "4 * u * X \<le> 4 * u * (297 * st)"
    using assms(2) upos by (intro mult_left_mono) simp_all
  then have "st * (1 - u)\<^sup>2 - 4 * u * X \<ge> st * ((1 - u)\<^sup>2 - 1188 * u)"
    by (simp add: algebra_simps)
  moreover have "(1 - u)\<^sup>2 - 1188 * u \<ge> 999 / 1000"
    by (simp add: u power2_eq_square)
  then have "st * ((1 - u)\<^sup>2 - 1188 * u) \<ge> st * (999 / 1000)"
    using stpos by (intro mult_left_mono) simp_all
  moreover have "st * (999 / 1000) \<ge> 33 / 10 ^ 19 * (999 / 1000)"
    using assms(5) by (intro mult_right_mono) simp_all
  moreover have "2 * u * a \<le> 2 * u * (1 / 100 + 1 / 10 ^ 18)"
    using assms(4) upos by (intro mult_left_mono) simp_all
  moreover have "2 * u * (1 / 100 + 1 / 10 ^ 18) < 33 / 10 ^ 19 * (999 / 1000)"
    by (simp add: u)
  ultimately have "0 < st * (1 - u)\<^sup>2 - 4 * u * X - 2 * u * a"
    by linarith
  then show ?thesis
    using diff by linarith
qed

lemma grid_last_ineq:
  fixes E st a u :: real
  assumes "999 / 10 ^ 18 \<le> E" and "0 < a" and "a \<le> 1 / 100 + 1 / 10 ^ 18" and "0 \<le> st"
    and "299 * st \<le> E * (1 + u)\<^sup>2" and u: "u = 1 / 2 ^ 53"
  shows "(298 * st * (1 + u) + a) * (1 + u) < E + a"
proof -
  have Epos: "0 < E"
    using assms(1) by simp
  have u1: "0 \<le> (1 + u)\<^sup>2"
    by simp
  have "298 * st * (1 + u)\<^sup>2 = 298 / 299 * ((299 * st) * (1 + u)\<^sup>2)"
    by simp
  also have "\<dots> \<le> 298 / 299 * ((E * (1 + u)\<^sup>2) * (1 + u)\<^sup>2)"
    using assms(5) u1 by (intro mult_left_mono mult_right_mono) simp_all
  also have "\<dots> = E * (298 / 299 * ((1 + u)\<^sup>2 * (1 + u)\<^sup>2))"
    by simp
  also have "\<dots> \<le> E * (1 - 1 / 300)"
  proof -
    have "298 / 299 * ((1 + u)\<^sup>2 * (1 + u)\<^sup>2) \<le> 1 - 1 / 300"
      by (simp add: u power2_eq_square)
    then show ?thesis
      using Epos by (intro mult_left_mono) simp_all
  qed
  finally have A: "298 * st * (1 + u)\<^sup>2 \<le> E * (1 - 1 / 300)" .
  have "a * u \<le> (1 / 100 + 1 / 10 ^ 18) * u"
    using assms(3) by (intro mult_right_mono) (simp_all add: u)
  then have B: "a * u < 999 / 10 ^ 18 / 300"
    by (simp add: u)
  have "999 / 10 ^ 18 / 300 \<le> E / 300"
    using assms(1) by simp
  then have "a * u < E / 300"
    using B by linarith
  moreover have "(298 * st * (1 + u) + a) * (1 + u) = 298 * st * (1 + u)\<^sup>2 + a + a * u"
    by (simp add: algebra_simps power2_eq_square)
  ultimately show ?thesis
    using A by (simp add: algebra_simps)
qed

lemma fl_nonneg_le:
  assumes "0 \<le> x" and "x \<le> 2 powi k" and "- 1074 \<le> k" and "k \<le> 1023"
  shows "fl x = Num (rnd x)" and "0 \<le> rnd x" and "rnd x \<le> 2 powi k"
proof -
  show n: "0 \<le> rnd x"
    using assms(1) by (rule rnd_nonneg)
  show le: "rnd x \<le> 2 powi k"
    using assms(3) assms(1) assms(2) by (rule rnd_le_two_powi)
  have "(2::real) powi k \<le> 2 powi 1023"
    using assms(4) by (intro power_int_increasing) simp_all
  then have "\<bar>rnd x\<bar> \<le> max_f64"
    using n le two_powi_1023_le_max by linarith
  then show "fl x = Num (rnd x)"
    by (rule fl_Num)
qed

lemma rnd_head_min: "rnd (5764607523034235 / 2 ^ 59) = 5764607523034235 / 2 ^ 59"
  using rnd_idem [of "1 / 100"] by (simp only: rnd_1e_2)

lemma length_linspace_f64: "length (linspace_f64 start stop num) = num"
  by (simp add: linspace_f64_def Let_def)

lemma nth_linspace_f64_300:
  assumes "i < 300"
  shows "linspace_f64 start stop 300 ! i =
    (if i = 299 then stop
     else if fdiv (fsub stop start) (Num 299) = Num 0
       then fadd (fmul (fdiv (Num (real i)) (Num 299)) (fsub stop start)) start
       else fadd (fmul (Num (real i)) (fdiv (fsub stop start) (Num 299))) start)"
  using assms by (simp add: linspace_f64_def Let_def nth_list_update)

lemma length_H_vals_f64: "length (fst (plot_broad_weir_f64 Cd b H_max)) = 300"
  by (simp add: plot_broad_weir_f64_def Let_def length_linspace_f64)

lemma nth_H_vals_f64:
  assumes "i < 300"
  shows "fst (plot_broad_weir_f64 Cd b H_max) ! i =
    (if i = 299 then H_max
     else if fdiv (fsub H_max (Num (5764607523034235 / 2 ^ 59))) (Num 299) = Num 0
       then fadd (fmul (fdiv (Num (real i)) (Num 299)) (fsub H_max (Num (5764607523034235 / 2 ^ 59))))
              (Num (5764607523034235 / 2 ^ 59))
       else fadd (fmul (Num (real i)) (fdiv (fsub H_max (Num (5764607523034235 / 2 ^ 59))) (Num 299)))
              (Num (5764607523034235 / 2 ^ 59)))"
  using nth_linspace_f64_300 [OF assms, of "fl (1 / 100)" H_max]
  by (simp only: plot_broad_weir_f64_def Let_def fst_conv fl_1e_2)

lemma two_powi_1000_bounds:
  "299 * (2::real) powi 1000 \<le> 2 powi 1009" "(2::real) powi 1009 + 1 / 64 \<le> 2 powi 1010"
  "(2::real) powi 1000 + 1 / 64 \<le> 2 powi 1001"
  by (simp_all add: power_int_def)

lemma H_vals_f64_nth_above:
  fixes H :: real
  assumes "5764607523034235 / 2 ^ 59 \<le> H" and "H \<le> 2 powi 1000" and "i < 299"
  shows "rnd (rnd (H - 5764607523034235 / 2 ^ 59) / 299) \<noteq> 0 \<Longrightarrow>
      fst (plot_broad_weir_f64 Cd b (Num H)) ! i =
      Num (rnd (rnd (real i * rnd (rnd (H - 5764607523034235 / 2 ^ 59) / 299)) + 5764607523034235 / 2 ^ 59))"
    and "rnd (rnd (H - 5764607523034235 / 2 ^ 59) / 299) = 0 \<Longrightarrow>
      fst (plot_broad_weir_f64 Cd b (Num H)) ! i =
      Num (rnd (rnd (rnd (real i / 299) * rnd (H - 5764607523034235 / 2 ^ 59)) + 5764607523034235 / 2 ^ 59))"
    and "0 \<le> rnd (H - 5764607523034235 / 2 ^ 59)"
    and "0 \<le> rnd (rnd (H - 5764607523034235 / 2 ^ 59) / 299)"
    and "0 \<le> rnd (real i * rnd (rnd (H - 5764607523034235 / 2 ^ 59) / 299))"
    and "0 \<le> rnd (rnd (real i / 299) * rnd (H - 5764607523034235 / 2 ^ 59))"
proof -
  define a :: real where "a = 5764607523034235 / 2 ^ 59"
  define dl where "dl = rnd (H - a)"
  define st where "st = rnd (dl / 299)"
  have a: "0 \<le> a" "a \<le> 1 / 64"
    by (simp_all add: a_def)
  have "0 \<le> H - a" "H - a \<le> 2 powi 1000"
    using assms(1,2) a by (simp_all add: a_def)
  note d = fl_nonneg_le [OF this, folded dl_def]
  have dl: "fl (H - a) = Num dl" "0 \<le> dl" "dl \<le> 2 powi 1000"
    by (rule d; simp)+
  have "0 \<le> dl / 299" "dl / 299 \<le> 2 powi 1000"
    using dl(2,3) by simp_all
  note s = fl_nonneg_le [OF this, folded st_def]
  have st: "fl (dl / 299) = Num st" "0 \<le> st" "st \<le> 2 powi 1000"
    by (rule s; simp)+
  have delta: "fsub (Num H) (Num a) = Num dl"
    using dl(1) by (simp add: fsub_def)
  have step: "fdiv (Num dl) (Num 299) = Num st"
    using st(1) by simp
  have i: "0 \<le> real i" "real i \<le> 299"
    using assms(3) by simp_all
  have "real i * st \<le> 299 * 2 powi 1000"
    using i st(2,3) by (intro mult_mono) simp_all
  then have "0 \<le> real i * st" "real i * st \<le> 2 powi 1009"
    using i st(2) two_powi_1000_bounds(1) by simp_all
  note m = fl_nonneg_le [OF this]
  have m': "fl (real i * st) = Num (rnd (real i * st))" "0 \<le> rnd (real i * st)"
    "rnd (real i * st) \<le> 2 powi 1009"
    by (rule m; simp)+
  have "0 \<le> rnd (real i * st) + a" "rnd (real i * st) + a \<le> 2 powi 1010"
    using m'(2,3) a two_powi_1000_bounds(2) by linarith+
  note y = fl_nonneg_le [OF this]
  have y': "fl (rnd (real i * st) + a) = Num (rnd (rnd (real i * st) + a))"
    by (rule y; simp)
  have "0 \<le> real i / 299" "real i / 299 \<le> 2 powi 0"
    using i by simp_all
  note q = fl_nonneg_le [OF this]
  have q': "fl (real i / 299) = Num (rnd (real i / 299))" "0 \<le> rnd (real i / 299)"
    "rnd (real i / 299) \<le> 1"
    using q by simp_all
  have "rnd (real i / 299) * dl \<le> 1 * 2 powi 1000"
    using q'(2,3) dl(2,3) by (intro mult_mono) simp_all
  then have "0 \<le> rnd (real i / 299) * dl" "rnd (real i / 299) * dl \<le> 2 powi 1000"
    using q'(2) dl(2) by simp_all
  note p = fl_nonneg_le [OF this]
  have p': "fl (rnd (real i / 299) * dl) = Num (rnd (rnd (real i / 299) * dl))"
    "0 \<le> rnd (rnd (real i / 299) * dl)" "rnd (rnd (real i / 299) * dl) \<le> 2 powi 1000"
    by (rule p; simp)+
  have "0 \<le> rnd (rnd (real i / 299) * dl) + a" "rnd (rnd (real i / 299) * dl) + a \<le> 2 powi 1001"
    using p'(2,3) a two_powi_1000_bounds(3) by linarith+
  note z = fl_nonneg_le [OF this]
  have z': "fl (rnd (rnd (real i / 299) * dl) + a) = Num (rnd (rnd (rnd (real i / 299) * dl) + a))"
    by (rule z; simp)
  have nth: "fst (plot_broad_weir_f64 Cd b (Num H)) ! i =
    (if Num st = Num 0
       then fadd (fmul (fdiv (Num (real i)) (Num 299)) (Num dl)) (Num a)
       else fadd (fmul (Num (real i)) (Num st)) (Num a))"
    using nth_H_vals_f64 [of i Cd b "Num H", folded a_def] assms(3)
    by (simp only: delta step) simp
  show "0 \<le> rnd (H - 5764607523034235 / 2 ^ 59)"
    using dl(2) by (simp only: dl_def a_def)
  show "0 \<le> rnd (rnd (H - 5764607523034235 / 2 ^ 59) / 299)"
    using st(2) by (simp only: st_def dl_def a_def)
  show "0 \<le> rnd (real i * rnd (rnd (H - 5764607523034235 / 2 ^ 59) / 299))"
    using m'(2) by (simp only: st_def dl_def a_def)
  show "0 \<le> rnd (rnd (real i / 299) * rnd (H - 5764607523034235 / 2 ^ 59))"
    using p'(2) by (simp only: st_def dl_def a_def)
  {
    assume "rnd (rnd (H - 5764607523034235 / 2 ^ 59) / 299) \<noteq> 0"
    then have "st \<noteq> 0"
      by (simp add: st_def dl_def a_def)
    then have "fst (plot_broad_weir_f64 Cd b (Num H)) ! i = Num (rnd (rnd (real i * st) + a))"
      using nth m'(1) y' by simp
    then show "fst (plot_broad_weir_f64 Cd b (Num H)) ! i =
      Num (rnd (rnd (real i * rnd (rnd (H - 5764607523034235 / 2 ^ 59) / 299)) + 5764607523034235 / 2 ^ 59))"
      by (simp only: st_def dl_def a_def)
  }
  {
    assume "rnd (rnd (H - 5764607523034235 / 2 ^ 59) / 299) = 0"
    then have "st = 0"
      by (simp add: st_def dl_def a_def)
    then have "fst (plot_broad_weir_f64 Cd b (Num H)) ! i = Num (rnd (rnd (rnd (real i / 299) * dl) + a))"
      using nth q'(1) p'(1) z' by simp
    then show "fst (plot_broad_weir_f64 Cd b (Num H)) ! i =
      Num (rnd (rnd (rnd (real i / 299) * rnd (H - 5764607523034235 / 2 ^ 59)) + 5764607523034235 / 2 ^ 59))"
      by (simp only: dl_def a_def)
  }
qed

lemma rnd_rel_bounds_ge:
  assumes "2 powi k \<le> x" and "- 1022 \<le> k"
  shows "x * (1 - 1 / 2 ^ 53) \<le> rnd x" and "rnd x \<le> x * (1 + 1 / 2 ^ 53)"
    and "2 powi k \<le> rnd x"
proof -
  have "(2::real) powi (- 1022) \<le> 2 powi k"
    using assms(2) by (intro power_int_increasing) simp_all
  then have n: "x = 0 \<or> 2 powi (- 1022) \<le> x"
    using assms(1) by simp
  show "x * (1 - 1 / 2 ^ 53) \<le> rnd x"
    using n by (rule rnd_rel_bounds)
  show "rnd x \<le> x * (1 + 1 / 2 ^ 53)"
    using n by (rule rnd_rel_bounds)
  have "- 1074 \<le> k"
    using assms(2) by simp
  then show "2 powi k \<le> rnd x"
    using assms(1) by (rule rnd_ge_two_powi)
qed

lemma grid_f64_strict:
  fixes H :: real
  assumes "1 / 100 + 1 / 10 ^ 15 \<le> H" and "H \<le> 2 powi 1000"
  shows "\<exists>y :: nat \<Rightarrow> real.
    (\<forall>i<299. fst (plot_broad_weir_f64 Cd b (Num H)) ! i = Num (y i)) \<and>
    y 0 = 5764607523034235 / 2 ^ 59 \<and> (\<forall>i<298. y i < y (Suc i)) \<and> y 298 < H"
proof -
  define a :: real where "a = 5764607523034235 / 2 ^ 59"
  define u :: real where "u = 1 / 2 ^ 53"
  define E where "E = H - a"
  define dl where "dl = rnd E"
  define st where "st = rnd (dl / 299)"
  define y where "y = (\<lambda>i::nat. rnd (rnd (real i * st) + a))"
  have a: "0 < a" "a \<le> 1 / 100 + 1 / 10 ^ 18" "2 powi (- 7) \<le> a" "a \<le> H"
    using assms(1) by (simp_all add: a_def power_int_def power_one_over)
  have u: "0 \<le> 1 + u" "0 \<le> 1 - u"
    by (simp_all add: u_def)
  have "999 / 10 ^ 18 \<le> 1 / 100 + 1 / 10 ^ 15 - a"
    by (simp add: a_def)
  then have E18: "999 / 10 ^ 18 \<le> E"
    using assms(1) by (simp add: E_def)
  have "(2::real) powi (- 50) \<le> 999 / 10 ^ 18"
    by (simp add: power_int_def power_one_over)
  then have E: "2 powi (- 50) \<le> E"
    using E18 by linarith
  note dE = rnd_rel_bounds_ge [OF E, folded dl_def u_def]
  have dl: "E * (1 - u) \<le> dl" "dl \<le> E * (1 + u)" "2 powi (- 50) \<le> dl"
    by (rule dE; simp)+
  have "2 powi (- 59) \<le> 2 powi (- 50) / (299::real)"
    by (simp add: power_int_def power_one_over)
  also have "\<dots> \<le> dl / 299"
    using dl(3) by (simp add: divide_right_mono)
  finally have d299: "2 powi (- 59) \<le> dl / 299" .
  note sE = rnd_rel_bounds_ge [OF d299, folded st_def u_def]
  have st: "dl / 299 * (1 - u) \<le> st" "st \<le> dl / 299 * (1 + u)" "2 powi (- 59) \<le> st"
    by (rule sE; simp)+
  have stpos: "0 < st"
    using st(3) by (rule two_powi_le_pos)
  have "33 / 10 ^ 19 \<le> 999 / 10 ^ 18 * ((1 - u) * (1 - u) / 299)"
    by (simp add: u_def)
  also have "\<dots> \<le> E * ((1 - u) * (1 - u) / 299)"
    using E18 u(2) by (intro mult_right_mono) simp_all
  also have "\<dots> = E * (1 - u) / 299 * (1 - u)"
    by simp
  also have "\<dots> \<le> dl / 299 * (1 - u)"
    using dl(1) u(2) by (intro mult_right_mono divide_right_mono) simp_all
  also have "\<dots> \<le> st"
    by (rule st(1))
  finally have st19: "33 / 10 ^ 19 \<le> st" .
  have st_ne: "rnd (rnd (H - 5764607523034235 / 2 ^ 59) / 299) \<noteq> 0"
    using stpos by (simp add: st_def dl_def E_def a_def)
  have "299 * st \<le> dl * (1 + u)"
    using st(2) by simp
  also have "\<dots> \<le> (E * (1 + u)) * (1 + u)"
    using dl(2) u(1) by (rule mult_right_mono)
  finally have st299: "299 * st \<le> E * (1 + u)\<^sup>2"
    by (simp add: power2_eq_square)
  have m: "real i * st * (1 - u) \<le> rnd (real i * st) \<and> rnd (real i * st) \<le> real i * st * (1 + u)
      \<and> 0 \<le> rnd (real i * st)" for i
  proof -
    have "real i * st = 0 \<or> 2 powi (- 1022) \<le> real i * st"
    proof (cases "i = 0")
      case True
      then show ?thesis by simp
    next
      case False
      then have "1 \<le> real i"
        by simp
      then have "1 * st \<le> real i * st"
        using stpos by (intro mult_right_mono) simp_all
      then have "st \<le> real i * st"
        by simp
      moreover have "(2::real) powi (- 1022) \<le> 2 powi (- 59)"
        by (intro power_int_increasing) simp_all
      ultimately have "2 powi (- 1022) \<le> real i * st"
        using st(3) by linarith
      then show ?thesis ..
    qed
    note b = rnd_rel_bounds [OF this, folded u_def]
    have "0 \<le> real i * st"
      using stpos by simp
    then have "0 \<le> rnd (real i * st)"
      by (rule rnd_nonneg)
    then show ?thesis
      using b by simp
  qed
  have yb: "(rnd (real i * st) + a) * (1 - u) \<le> y i \<and> y i \<le> (rnd (real i * st) + a) * (1 + u)" for i
  proof -
    have "2 powi (- 7) \<le> rnd (real i * st) + a"
      using m [of i] a(3) by linarith
    note b = rnd_rel_bounds_ge [OF this, folded u_def y_def]
    show ?thesis
      using b(1,2) by (simp add: y_def)
  qed
  have nth: "fst (plot_broad_weir_f64 Cd b (Num H)) ! i = Num (y i)" if "i < 299" for i
    using H_vals_f64_nth_above(1) [OF a(4) [unfolded a_def] assms(2) that st_ne, of Cd b]
    by (simp only: y_def st_def dl_def E_def a_def)
  have "y 0 = rnd a"
    by (simp add: y_def)
  then have y0: "y 0 = 5764607523034235 / 2 ^ 59"
    by (simp only: a_def rnd_head_min)
  have stepi: "y i < y (Suc i)" if "i < 298" for i
  proof -
    define X where "X = real i * st"
    have X: "0 \<le> X" "X \<le> 297 * st"
      using that stpos by (simp_all add: X_def)
    have X1: "real (Suc i) * st = X + st"
      by (simp add: X_def algebra_simps)
    have "y i \<le> (rnd X + a) * (1 + u)"
      using yb [of i] by (simp add: X_def)
    also have "\<dots> \<le> (X * (1 + u) + a) * (1 + u)"
      using m [of i] u(1) by (intro mult_right_mono) (simp_all add: X_def)
    also have "\<dots> < ((X + st) * (1 - u) + a) * (1 - u)"
      using X a(1,2) st19 u_def by (rule grid_step_ineq)
    also have "\<dots> \<le> (rnd (X + st) + a) * (1 - u)"
      using m [of "Suc i"] u(2) by (intro mult_right_mono) (simp_all only: X1, simp_all)
    also have "\<dots> \<le> y (Suc i)"
      using yb [of "Suc i"] by (simp only: X1)
    finally show ?thesis .
  qed
  have last: "y 298 < H"
  proof -
    have "y 298 \<le> (rnd (298 * st) + a) * (1 + u)"
      using yb [of 298] by simp
    also have "\<dots> \<le> (298 * st * (1 + u) + a) * (1 + u)"
      using m [of 298] u(1) by (intro mult_right_mono) simp_all
    also have "\<dots> < E + a"
      using E18 a(1,2) _ st299 u_def by (rule grid_last_ineq) (use stpos in simp)
    finally show ?thesis
      by (simp add: E_def)
  qed
  show ?thesis
    using nth y0 stepi last by (intro exI [of _ y]) simp
qed

lemma H_vals_f64_increasing:
  fixes H :: real
  assumes "1 / 100 + 1 / 10 ^ 15 \<le> H" and "H \<le> 2 powi 1000"
  shows "sorted_wrt flt (fst (plot_broad_weir_f64 Cd b (Num H)))"
    and "\<forall>h \<in> set (fst (plot_broad_weir_f64 Cd b (Num H))). flt (Num 0) h"
proof -
  obtain y :: "nat \<Rightarrow> real" where y:
    "\<And>i. i < 299 \<Longrightarrow> fst (plot_broad_weir_f64 Cd b (Num H)) ! i = Num (y i)"
    "y 0 = 5764607523034235 / 2 ^ 59"
    "\<And>i. i < 298 \<Longrightarrow> y i < y (Suc i)"
    "y 298 < H"
    using grid_f64_strict [OF assms, of Cd b] by blast
  define z where "z = (\<lambda>i. if i < 299 then y i else H)"
  have nth: "fst (plot_broad_weir_f64 Cd b (Num H)) ! i = Num (z i)" if "i < 300" for i
  proof (cases "i < 299")
    case True
    then show ?thesis
      using y(1) by (simp add: z_def)
  next
    case False
    then have "i = 299"
      using that by simp
    then show ?thesis
      using nth_H_vals_f64 [of 299 Cd b "Num H"] by (simp add: z_def)
  qed
  have suc: "z i < z (Suc i)" if "i < 299" for i
  proof (cases "i < 298")
    case True
    then show ?thesis
      using y(3) by (simp add: z_def)
  next
    case False
    then have "i = 298"
      using that by simp
    then show ?thesis
      using y(4) by (simp add: z_def)
  qed
  have mono: "i < j \<Longrightarrow> j < 300 \<Longrightarrow> z i < z j" for i j
  proof (induction j)
    case 0
    then show ?case by simp
  next
    case (Suc j)
    have s: "z j < z (Suc j)"
      using Suc.prems(2) by (intro suc) simp
    show ?case
    proof (cases "i = j")
      case True
      then show ?thesis
        using s by simp
    next
      case False
      then have "z i < z j"
        using Suc by simp
      then show ?thesis
        using s by linarith
    qed
  qed
  show "sorted_wrt flt (fst (plot_broad_weir_f64 Cd b (Num H)))"
    unfolding sorted_wrt_iff_nth_less length_H_vals_f64
  proof (intro allI impI)
    fix i j :: nat
    assume "i < j" "j < 300"
    then show "flt (fst (plot_broad_weir_f64 Cd b (Num H)) ! i) (fst (plot_broad_weir_f64 Cd b (Num H)) ! j)"
      using mono [of i j] nth [of i] nth [of j] by simp
  qed
  show "\<forall>h \<in> set (fst (plot_broad_weir_f64 Cd b (Num H))). flt (Num 0) h"
  proof
    fix h
    assume "h \<in> set (fst (plot_broad_weir_f64 Cd b (Num H)))"
    then obtain i where i: "i < 300" "h = fst (plot_broad_weir_f64 Cd b (Num H)) ! i"
      by (auto simp: in_set_conv_nth length_H_vals_f64)
    have "0 < z 0"
      using y(2) by (simp add: z_def)
    moreover have "z 0 \<le> z i"
      using mono [of 0 i] i(1) by (cases "i = 0") simp_all
    ultimately show "flt (Num 0) h"
      using nth [OF i(1)] i(2) by simp
  qed
qed

lemma rnd_head_min_299: "rnd (5764607523034235 / 2 ^ 59 / 299) = 4935583698651385 / 2 ^ 67"
proof -
  have "rnd (5764607523034235 / 2 ^ 59 / 299) = of_int 4935583698651385 * 2 powi (-15 - 52)"
    by (rule rnd_eqI) (simp_all add: power_int_def power_one_over)
  then show ?thesis
    by (simp add: power_int_def power_one_over)
qed

lemma rnd_head_min_298: "rnd (298 * (4935583698651385 / 2 ^ 67)) = 2872663949605689 / 2 ^ 58"
proof -
  have "rnd (298 * (4935583698651385 / 2 ^ 67)) = of_int 5745327899211378 * 2 powi (-7 - 52)"
    by (rule rnd_eqI) (simp_all add: power_int_def power_one_over)
  then show ?thesis
    by (simp add: power_int_def power_one_over)
qed

lemma rnd_head_max_near: "rnd (100000000000001 / 10 ^ 16) = 5764607523034293 / 2 ^ 59"
proof -
  have "rnd (100000000000001 / 10 ^ 16) = of_int 5764607523034293 * 2 powi (-7 - 52)"
    by (rule rnd_eqI) (simp_all add: power_int_def power_one_over)
  then show ?thesis
    by (simp add: power_int_def power_one_over)
qed

lemma rnd_delta_near: "rnd (5764607523034293 / 2 ^ 59 - 5764607523034235 / 2 ^ 59) = 29 / 2 ^ 58"
proof -
  have "rnd (5764607523034293 / 2 ^ 59 - 5764607523034235 / 2 ^ 59) = of_int 8162774324609024 * 2 powi (-54 - 52)"
    by (rule rnd_eqI) (simp_all add: power_int_def power_one_over)
  then show ?thesis
    by (simp add: power_int_def power_one_over)
qed

lemma rnd_step_near: "rnd ((29 / 2 ^ 58) / 299) = 6988863635785653 / 2 ^ 114"
proof -
  have "rnd ((29 / 2 ^ 58) / 299) = of_int 6988863635785653 * 2 powi (-62 - 52)"
    by (rule rnd_eqI) (simp_all add: power_int_def power_one_over)
  then show ?thesis
    by (simp add: power_int_def power_one_over)
qed

lemma rnd_m1_near: "rnd (1 * (6988863635785653 / 2 ^ 114)) = 6988863635785653 / 2 ^ 114"
proof -
  have "rnd (1 * (6988863635785653 / 2 ^ 114)) = of_int 6988863635785653 * 2 powi (-62 - 52)"
    by (rule rnd_eqI) (simp_all add: power_int_def power_one_over)
  then show ?thesis
    by (simp add: power_int_def power_one_over)
qed

lemma rnd_y1_near: "rnd (6988863635785653 / 2 ^ 114 + 5764607523034235 / 2 ^ 59) = 5764607523034235 / 2 ^ 59"
proof -
  have "rnd (6988863635785653 / 2 ^ 114 + 5764607523034235 / 2 ^ 59) = of_int 5764607523034235 * 2 powi (-7 - 52)"
    by (rule rnd_eqI) (simp_all add: power_int_def power_one_over)
  then show ?thesis
    by (simp add: power_int_def power_one_over)
qed

lemma fl_minus: "fl (- x) = fneg (fl x)"
  using max_f64_pos by (auto simp: fl_def Let_def rnd_minus)

lemma fl_neg_le:
  assumes "0 \<le> x" and "x \<le> 2 powi k" and "- 1074 \<le> k" and "k \<le> 1023"
  shows "fl (- x) = Num (- rnd x)"
  using fl_nonneg_le(1) [OF assms] by (simp add: fl_minus)

lemma H_vals_f64_positive_below:
  fixes H :: real
  assumes "0 < H" and "H < 5764607523034235 / 2 ^ 59" and "i < 299"
  shows "\<exists>y. fst (plot_broad_weir_f64 Cd b (Num H)) ! i = Num y \<and> 0 < y"
proof -
  define a :: real where "a = 5764607523034235 / 2 ^ 59"
  define E where "E = a - H"
  define dl where "dl = rnd E"
  define st where "st = rnd (dl / 299)"
  have ra: "rnd a = a"
    unfolding a_def by (rule rnd_head_min)
  have a: "0 < a" "a \<le> 2 powi (- 6)" "2 powi (- 7) \<le> a"
    by (simp_all add: a_def power_int_def power_one_over)
  have E: "0 \<le> E" "E \<le> a"
    using assms(1,2) by (simp_all add: E_def a_def)
  have E6: "E \<le> 2 powi (- 6)"
    using E(2) a(2) by linarith
  have dl: "0 \<le> dl" "dl \<le> a"
    using rnd_nonneg [OF E(1)] rnd_mono [OF E] ra by (simp_all add: dl_def)
  have "fl (- E) = Num (- dl)"
    unfolding dl_def using E(1) E6 by (rule fl_neg_le) simp_all
  moreover have "H + - a = - E"
    by (simp add: E_def)
  ultimately have delta: "fsub (Num H) (Num a) = Num (- dl)"
    by (simp add: fsub_def)
  have d299: "0 \<le> dl / 299" "dl / 299 \<le> a / 299"
    using dl by (simp_all add: divide_right_mono)
  have d6: "dl / 299 \<le> 2 powi (- 6)"
    using dl a(1,2) by simp
  have st: "0 \<le> st" "st \<le> 4935583698651385 / 2 ^ 67"
    using rnd_nonneg [OF d299(1)] rnd_mono [OF d299] rnd_head_min_299
    by (simp_all add: st_def a_def)
  have "fl (- (dl / 299)) = Num (- st)"
    unfolding st_def using d299(1) d6 by (rule fl_neg_le) simp_all
  then have step: "fdiv (Num (- dl)) (Num 299) = Num (- st)"
    by simp
  have nth: "fst (plot_broad_weir_f64 Cd b (Num H)) ! i =
    (if st = 0
       then fadd (fmul (fdiv (Num (real i)) (Num 299)) (Num (- dl))) (Num a)
       else fadd (fmul (Num (real i)) (Num (- st))) (Num a))"
    using nth_H_vals_f64 [of i Cd b "Num H", folded a_def] assms(3)
    by (simp only: delta step) simp
  have i: "0 \<le> real i" "real i \<le> 298"
    using assms(3) by simp_all
  have final: "\<exists>y. fadd (Num (- w)) (Num a) = Num y \<and> 0 < y"
    if "0 \<le> w" and "w \<le> a - 2 powi (- 16)" for w
  proof -
    have "2 powi (- 16) \<le> - w + a" "- w + a \<le> 2 powi (- 6)"
      using that a(2) by linarith+
    note r = fl_in_range [OF _ _ this]
    have "fl (- w + a) = Num (rnd (- w + a))" "2 powi (- 16) \<le> rnd (- w + a)"
      by (rule r; simp)+
    then show ?thesis
      using two_powi_le_pos [of "- 16" "rnd (- w + a)"] by simp
  qed
  show ?thesis
  proof (cases "st = 0")
    case False
    define X where "X = real i * st"
    have "real i * st \<le> 298 * (4935583698651385 / 2 ^ 67)"
      using i st by (intro mult_mono) simp_all
    then have X: "0 \<le> X" "X \<le> 298 * (4935583698651385 / 2 ^ 67)"
      using i(1) st(1) by (simp_all only: X_def mult_nonneg_nonneg)
    have w: "0 \<le> rnd X" "rnd X \<le> 2872663949605689 / 2 ^ 58"
      using rnd_nonneg [OF X(1)] rnd_mono [OF X] by (simp_all only: rnd_head_min_298)
    have "X \<le> 2 powi (- 6)"
      using X(2) by (simp add: power_int_def power_one_over)
    with X(1) have "fl (- X) = Num (- rnd X)"
      by (rule fl_neg_le) simp_all
    then have "fmul (Num (real i)) (Num (- st)) = Num (- rnd X)"
      by (simp add: X_def)
    moreover have "rnd X \<le> a - 2 powi (- 16)"
      using w(2) by (simp add: a_def power_int_def power_one_over)
    ultimately show ?thesis
      using final [OF w(1)] nth False by simp
  next
    case True
    have small: "dl \<le> 2 powi (- 1000)"
    proof (rule ccontr)
      assume "\<not> dl \<le> 2 powi (- 1000)"
      then have "2 powi (- 1000) / 299 \<le> dl / 299"
        by (simp add: divide_right_mono)
      moreover have "2 powi (- 1009) \<le> 2 powi (- 1000) / (299::real)"
        by (simp add: power_int_def power_one_over)
      ultimately have "2 powi (- 1009) \<le> dl / 299"
        by linarith
      then have "2 powi (- 1009) \<le> st"
        unfolding st_def by (intro rnd_ge_two_powi) simp_all
      then show False
        using True two_powi_le_pos [of "- 1009" st] by simp
    qed
    define q where "q = rnd (real i / 299)"
    have "0 \<le> real i / 299" "real i / 299 \<le> 2 powi 0"
      using i by simp_all
    note r = fl_nonneg_le [OF this, folded q_def]
    have q: "fl (real i / 299) = Num q" "0 \<le> q" "q \<le> 1"
      using r by simp_all
    have "q * dl \<le> 1 * dl"
      using q(3) dl(1) by (rule mult_right_mono)
    then have X: "0 \<le> q * dl" "q * dl \<le> 2 powi (- 1000)"
      using q(2) dl(1) small by simp_all
    have w: "0 \<le> rnd (q * dl)" "rnd (q * dl) \<le> 2 powi (- 1000)"
      using rnd_nonneg [OF X(1)] rnd_le_two_powi [OF _ X] by simp_all
    have "fl (- (q * dl)) = Num (- rnd (q * dl))"
      using X by (rule fl_neg_le) simp_all
    then have "fmul (fdiv (Num (real i)) (Num 299)) (Num (- dl)) = Num (- rnd (q * dl))"
      using q(1) by simp
    moreover have "(2::real) powi (- 1000) \<le> 2 powi (- 7) - 2 powi (- 16)"
      by (simp add: power_int_def power_one_over)
    then have "rnd (q * dl) \<le> a - 2 powi (- 16)"
      using w(2) a(3) by linarith
    ultimately show ?thesis
      using final [OF w(1)] nth True by simp
  qed
qed

lemma H_vals_f64_positive:
  fixes H :: real
  assumes "0 < H" and "H \<le> 2 powi 1000"
  shows "\<forall>h \<in> set (fst (plot_broad_weir_f64 Cd b (Num H))). flt (Num 0) h"
proof
  fix h
  assume "h \<in> set (fst (plot_broad_weir_f64 Cd b (Num H)))"
  then obtain i where i: "i < 300" "h = fst (plot_broad_weir_f64 Cd b (Num H)) ! i"
    by (auto simp: in_set_conv_nth length_H_vals_f64)
  have "\<exists>y. fst (plot_broad_weir_f64 Cd b (Num H)) ! i = Num y \<and> 0 < y"
  proof (cases "i < 299")
    case False
    then have "i = 299"
      using i(1) by simp
    then show ?thesis
      using nth_H_vals_f64 [of 299 Cd b "Num H"] assms(1) by simp
  next
    case less: True
    show ?thesis
    proof (cases "H < 5764607523034235 / 2 ^ 59")
      case True
      with assms(1) show ?thesis
        using less by (rule H_vals_f64_positive_below)
    next
      case False
      then have ge: "5764607523034235 / 2 ^ 59 \<le> H"
        by simp
      note n = H_vals_f64_nth_above [OF ge assms(2) less]
      have low: "5764607523034235 / 2 ^ 59 \<le> rnd (w + 5764607523034235 / 2 ^ 59)" if "0 \<le> w" for w
      proof -
        have "rnd (5764607523034235 / 2 ^ 59) \<le> rnd (w + 5764607523034235 / 2 ^ 59)"
          using that by (intro rnd_mono) simp_all
        then show ?thesis
          by (simp only: rnd_head_min)
      qed
      have pos: "(0::real) < 5764607523034235 / 2 ^ 59"
        by simp
      show ?thesis
      proof (cases "rnd (rnd (H - 5764607523034235 / 2 ^ 59) / 299) = 0")
        case True
        have "0 < rnd (rnd (rnd (real i / 299) * rnd (H - 5764607523034235 / 2 ^ 59)) +
            5764607523034235 / 2 ^ 59)"
          using low [OF n(6)] pos by linarith
        with n(2) [OF True, of Cd b] show ?thesis
          by blast
      next
        case False
        have "0 < rnd (rnd (real i * rnd (rnd (H - 5764607523034235 / 2 ^ 59) / 299)) +
            5764607523034235 / 2 ^ 59)"
          using low [OF n(5)] pos by linarith
        with n(1) [OF False, of Cd b] show ?thesis
          by blast
      qed
    qed
  qed
  then show "flt (Num 0) h"
    using i(2) by auto
qed

text \<open>
  Just above 0.01 the double grid is not strictly increasing. With
  \<open>H_max = 0.0100000000000001\<close> the step is about a fifth of the spacing of the doubles
  near 0.01, and the first two samples are both 0.01.
\<close>

lemma head_samples_repeat_just_above_epsilon:
  "fl (100000000000001 / 10 ^ 16) = Num (5764607523034293 / 2 ^ 59) \<and>
   flt (fl (1 / 100)) (fl (100000000000001 / 10 ^ 16)) \<and>
   fst (plot_broad_weir_f64 Cd b (fl (100000000000001 / 10 ^ 16))) ! 0 = fl (1 / 100) \<and>
   fst (plot_broad_weir_f64 Cd b (fl (100000000000001 / 10 ^ 16))) ! 1 = fl (1 / 100) \<and>
   \<not> sorted_wrt flt (fst (plot_broad_weir_f64 Cd b (fl (100000000000001 / 10 ^ 16))))"
proof -
  have h: "fl (100000000000001 / 10 ^ 16) = Num (5764607523034293 / 2 ^ 59)"
    by (subst fl_Num) (simp_all only: rnd_head_max_near, simp_all add: max_f64_def)
  have ge: "(5764607523034235::real) / 2 ^ 59 \<le> 5764607523034293 / 2 ^ 59"
    and le: "(5764607523034293::real) / 2 ^ 59 \<le> 2 powi 1000"
    by (simp_all add: power_int_def)
  have ne: "rnd (rnd (5764607523034293 / 2 ^ 59 - 5764607523034235 / 2 ^ 59) / 299) \<noteq> 0"
    by (simp only: rnd_delta_near rnd_step_near) simp
  note n = H_vals_f64_nth_above(1) [where H = "5764607523034293 / 2 ^ 59" and Cd = Cd and b = b,
      OF ge le _ ne, unfolded rnd_delta_near rnd_step_near]
  have "fst (plot_broad_weir_f64 Cd b (Num (5764607523034293 / 2 ^ 59))) ! 0 =
      Num (rnd (rnd (real 0 * (6988863635785653 / 2 ^ 114)) + 5764607523034235 / 2 ^ 59))"
    by (rule n) simp
  then have n0: "fst (plot_broad_weir_f64 Cd b (Num (5764607523034293 / 2 ^ 59))) ! 0 =
      Num (5764607523034235 / 2 ^ 59)"
    by (simp only: of_nat_0 mult_zero_left rnd_0 add_0 rnd_head_min)
  have "fst (plot_broad_weir_f64 Cd b (Num (5764607523034293 / 2 ^ 59))) ! 1 =
      Num (rnd (rnd (real 1 * (6988863635785653 / 2 ^ 114)) + 5764607523034235 / 2 ^ 59))"
    by (rule n) simp
  then have n1: "fst (plot_broad_weir_f64 Cd b (Num (5764607523034293 / 2 ^ 59))) ! 1 =
      Num (5764607523034235 / 2 ^ 59)"
    by (simp only: of_nat_1 rnd_m1_near rnd_y1_near)
  have "\<not> sorted_wrt flt (fst (plot_broad_weir_f64 Cd b (Num (5764607523034293 / 2 ^ 59))))"
  proof
    assume "sorted_wrt flt (fst (plot_broad_weir_f64 Cd b (Num (5764607523034293 / 2 ^ 59))))"
    then have "flt (fst (plot_broad_weir_f64 Cd b (Num (5764607523034293 / 2 ^ 59))) ! 0)
        (fst (plot_broad_weir_f64 Cd b (Num (5764607523034293 / 2 ^ 59))) ! 1)"
      by (rule sorted_wrt_nth_less) (simp_all add: length_H_vals_f64)
    then show False
      by (simp only: n0 n1) simp
  qed
  moreover have "flt (Num (5764607523034235 / 2 ^ 59)) (Num (5764607523034293 / 2 ^ 59))"
    by simp
  ultimately show ?thesis
    using n0 n1 by (simp only: h fl_1e_2) simp
qed

text \<open>
  Claim C4, as amended. In double precision, for every \<open>H_max\<close> from
  \<open>0.010000000000001\<close> up to \<open>2^1000\<close> (the slider gives 0.1 to 2.0) the 300 head
  values are strictly increasing, and for every \<open>H_max\<close> with \<open>0 < H_max \<le> 2^1000\<close>
  they are strictly positive. In exact arithmetic the head values are strictly
  increasing exactly when \<open>H_max > 0.01\<close> and strictly positive for every
  \<open>H_max > 0\<close>.
\<close>

theorem head_samples_increasing_and_positive_f64:
  fixes H_max :: real
  assumes "0 < H_max" and "H_max \<le> 2 powi 1000"
  shows "length (fst (plot_broad_weir_f64 Cd b (Num H_max))) = 300 \<and>
         (\<forall>H \<in> set (fst (plot_broad_weir_f64 Cd b (Num H_max))). flt (Num 0) H) \<and>
         (1 / 100 + 1 / 10 ^ 15 \<le> H_max \<longrightarrow>
            sorted_wrt flt (fst (plot_broad_weir_f64 Cd b (Num H_max)))) \<and>
         (sorted_wrt (<) (fst (plot_broad_weir Cd' b' H_max)) \<longleftrightarrow> 1 / 100 < H_max) \<and>
         (\<forall>H \<in> set (fst (plot_broad_weir Cd' b' H_max)). 0 < H)"
proof (intro conjI impI)
  show "length (fst (plot_broad_weir_f64 Cd b (Num H_max))) = 300"
    by (rule length_H_vals_f64)
  show "\<forall>H \<in> set (fst (plot_broad_weir_f64 Cd b (Num H_max))). flt (Num 0) H"
    using assms by (rule H_vals_f64_positive)
  show "sorted_wrt flt (fst (plot_broad_weir_f64 Cd b (Num H_max)))"
    if "1 / 100 + 1 / 10 ^ 15 \<le> H_max"
    using that assms(2) by (rule H_vals_f64_increasing)
  show "sorted_wrt (<) (fst (plot_broad_weir Cd' b' H_max)) \<longleftrightarrow> 1 / 100 < H_max"
    by (rule H_vals_sorted_iff)
  show "\<forall>H \<in> set (fst (plot_broad_weir Cd' b' H_max)). 0 < H"
    using H_vals_positive [OF assms(1)] by blast
qed

theorem head_samples_increasing_and_positive_f64_witness:
  "(0::real) < 1 \<and> (1::real) \<le> 2 powi 1000 \<and> (1::real) / 100 + 1 / 10 ^ 15 \<le> 1 \<and>
   sorted_wrt flt (fst (plot_broad_weir_f64 (Num (1 / 2)) (Num 1) (Num 1))) \<and>
   flt (Num 0) (fst (plot_broad_weir_f64 (Num (1 / 2)) (Num 1) (Num 1)) ! 150) \<and>
   sorted_wrt (<) (fst (plot_broad_weir (1 / 2) 1 1)) \<and>
   0 < fst (plot_broad_weir (1 / 2) 1 1) ! 150"
proof -
  have b: "(0::real) < 1" "(1::real) \<le> 2 powi 1000" "(1::real) / 100 + 1 / 10 ^ 15 \<le> 1"
    by (simp_all add: power_int_def)
  have m: "fst (plot_broad_weir_f64 (Num (1 / 2)) (Num 1) (Num 1)) ! 150
      \<in> set (fst (plot_broad_weir_f64 (Num (1 / 2)) (Num 1) (Num 1)))"
    "fst (plot_broad_weir (1 / 2) 1 1) ! 150 \<in> set (fst (plot_broad_weir (1 / 2) 1 1))"
    by (simp_all add: length_H_vals_f64 length_H_vals)
  show ?thesis
    using head_samples_increasing_and_positive_f64 [OF b(1,2), of "Num (1 / 2)" "Num 1" "1 / 2" 1] b m
    by simp
qed

text \<open>
  The claim as first stated covers every \<open>H_max > 0\<close>. With \<open>H_max = 0.005\<close> (and
  \<open>Cd = 0.5\<close>, \<open>b = 1\<close>) the samples start at 0.01 and end at 0.005: they are not
  increasing.
\<close>

theorem head_samples_not_increasing_below_epsilon:
  "(0::real) < 1 / 200 \<and>
   fst (plot_broad_weir (1 / 2) 1 (1 / 200)) ! 0 = 1 / 100 \<and>
   fst (plot_broad_weir (1 / 2) 1 (1 / 200)) ! 299 = 1 / 200 \<and>
   \<not> sorted_wrt (<) (fst (plot_broad_weir (1 / 2) 1 (1 / 200)))"
  by (simp add: H_vals_sorted_iff first_H_val last_H_val)

end
